theory Spec2Isabelle
  imports Main "HOL-Library.Signed_Division"
begin

section \<open>Memory of one participant\<close>

text \<open>
  The program stores every matrix as a flat, row-major array of \<^verbatim>\<open>double\<close> reached
  through a \<^verbatim>\<open>double *\<close>.  A participant's memory is a store from addresses (counted in
  elements) to values, and a pointer is the address of the first element of its buffer.
  The element type is left open: it only has to supply the constant \<^verbatim>\<open>0.0\<close>, the
  addition and the multiplication of the C type.  No law of arithmetic is assumed of them
  unless a theorem says so, hence the results hold for rounding arithmetic as they do for
  exact arithmetic.
\<close>

type_synonym 'a mem = "nat \<Rightarrow> 'a"

definition load :: "'a mem \<Rightarrow> nat \<Rightarrow> nat \<Rightarrow> 'a list" where
  "load h p len = map (\<lambda>i. h (p + i)) [0..<len]"

definition store :: "'a mem \<Rightarrow> nat \<Rightarrow> 'a list \<Rightarrow> 'a mem" where
  "store h p xs = (\<lambda>a. if p \<le> a \<and> a < p + length xs then xs ! (a - p) else h a)"

definition separate :: "nat \<Rightarrow> nat \<Rightarrow> nat \<Rightarrow> nat \<Rightarrow> bool" where
  "separate p m q l \<longleftrightarrow> p + m \<le> q \<or> q + l \<le> p"

section \<open>Arithmetic of the C type int\<close>

text \<open>
  Every size, count and index of the program is computed in \<^verbatim>\<open>int\<close> (32 bits).  A signed
  computation whose result leaves the range of the type has undefined behaviour in C, so
  it has no result here: a product or sum is \<open>None\<close> as soon as it does not fit, and a
  computation that needs it has no result either.
\<close>

definition INT_MAX :: int where
  "INT_MAX = 2147483647"

definition INT_MIN :: int where
  "INT_MIN = - 2147483648"

definition in_int :: "int \<Rightarrow> bool" where
  "in_int x \<longleftrightarrow> INT_MIN \<le> x \<and> x \<le> INT_MAX"

definition int_mul :: "int \<Rightarrow> int \<Rightarrow> int option" where
  "int_mul x y = (if in_int (x * y) then Some (x * y) else None)"

definition int_add :: "int \<Rightarrow> int \<Rightarrow> int option" where
  "int_add x y = (if in_int (x + y) then Some (x + y) else None)"

text \<open>
  The index expression \<^verbatim>\<open>i * n + j\<close>.  Where the program evaluates it, \<open>i\<close>, \<open>n\<close> and \<open>j\<close> are
  not negative, and the result is an offset from the start of a buffer.
\<close>

definition offset :: "int \<Rightarrow> int \<Rightarrow> int \<Rightarrow> nat option" where
  "offset i n j = Option.bind (int_mul i n) (\<lambda>p. map_option nat (int_add p j))"

text \<open>
  \<^verbatim>\<open>for (int i = 0; i < bound; i++) body\<close>, for a bound that the body does not change.  The
  counter stays below the bound, so incrementing it does not overflow.  The loop has no
  result once an iteration has none.
\<close>

definition for_loop :: "int \<Rightarrow> ('s \<Rightarrow> int \<Rightarrow> 's option) \<Rightarrow> 's \<Rightarrow> 's option" where
  "for_loop bound body s =
     foldl (\<lambda>s i. Option.bind s (\<lambda>t. body t (int i))) (Some s) [0..<nat bound]"

section \<open>The local multiply kernel\<close>

text \<open>
  \<^verbatim>\<open>multiply_matrices\<close> (matrix-mult.c, lines 50 to 60).  The innermost statement
  evaluates the three index expressions and reads and writes the cell
  \<^verbatim>\<open>C_local[i * n + j]\<close> in memory at every step.
\<close>

definition k_loop ::
  "'a::{zero,plus,times} mem \<Rightarrow> nat \<Rightarrow> nat \<Rightarrow> nat \<Rightarrow> int \<Rightarrow> int \<Rightarrow> int \<Rightarrow> 'a mem option" where
  "k_loop h A_local B C_local n i j =
     for_loop n (\<lambda>h k.
         Option.bind (offset i n j) (\<lambda>c.
         Option.bind (offset i n k) (\<lambda>a.
         Option.bind (offset k n j) (\<lambda>b.
           Some (h(C_local + c := h (C_local + c) + h (A_local + a) * h (B + b)))))))
       h"

definition j_loop ::
  "'a::{zero,plus,times} mem \<Rightarrow> nat \<Rightarrow> nat \<Rightarrow> nat \<Rightarrow> int \<Rightarrow> int \<Rightarrow> 'a mem option" where
  "j_loop h A_local B C_local n i =
     for_loop n (\<lambda>h j.
         Option.bind (offset i n j) (\<lambda>c. k_loop (h(C_local + c := 0)) A_local B C_local n i j))
       h"

definition multiply_matrices ::
  "'a::{zero,plus,times} mem \<Rightarrow> nat \<Rightarrow> nat \<Rightarrow> nat \<Rightarrow> int \<Rightarrow> int \<Rightarrow> 'a mem option" where
  "multiply_matrices h A_local B C_local local_rows n =
     for_loop local_rows (\<lambda>h i. j_loop h A_local B C_local n i) h"

text \<open>
  The entry the specification asks for: the sum over \<open>k\<close> of \<open>A[i][k] * B[k][j]\<close>, taken
  from \<^verbatim>\<open>0.0\<close> in increasing order of \<open>k\<close>, on row-major operands at \<open>a\<close> and \<open>b\<close>.
\<close>

definition dot :: "'a::{zero,plus,times} mem \<Rightarrow> nat \<Rightarrow> nat \<Rightarrow> nat \<Rightarrow> nat \<Rightarrow> nat \<Rightarrow> 'a" where
  "dot h a b n i j = foldl (\<lambda>acc k. acc + h (a + (i * n + k)) * h (b + (k * n + j))) 0 [0..<n]"

section \<open>Participants and collective operations\<close>

text \<open>
  The variables of \<^verbatim>\<open>main\<close> that hold data: the memory of the participant and its six
  pointers.  \<open>A\<close>, \<open>B\<close> and \<open>C\<close> point to the full matrices and are used by rank 0 only.
  The group of participants is the list of their states; the rank is the position.
\<close>

record 'a proc =
  mem :: "'a mem"
  A :: nat
  B :: nat
  C :: nat
  A_local :: nat
  B_local :: nat
  C_local :: nat

type_synonym 'a world = "'a proc list"

text \<open>
  A statement that every participant executes on its own state, knowing its rank.  The
  group has no result when the statement has none on some participant.
\<close>

definition every_rank :: "(nat \<Rightarrow> 'a proc \<Rightarrow> 'a proc option) \<Rightarrow> 'a world \<Rightarrow> 'a world option" where
  "every_rank f ps = those (map (\<lambda>world_rank. f world_rank (ps ! world_rank)) [0..<length ps])"

text \<open>
  The collective operations are routines of the message-passing library (\<^verbatim>\<open>mpi.h\<close>);
  the repository holds only their calls.  Each is modelled on the whole group, with a
  buffer given as the pointer variable every participant passes.
\<close>

text \<open>
  Modelled from the spec: \<^verbatim>\<open>MPI_Scatter\<close> (library routine, not in the sources).  Sections
  4.3 and 6: the root's send buffer is split into consecutive blocks of \<open>sendcount\<close>
  elements, and block \<open>r\<close> is delivered into the receive buffer of participant \<open>r\<close>, the
  root included.
\<close>

definition MPI_Scatter ::
  "('a proc \<Rightarrow> nat) \<Rightarrow> nat \<Rightarrow> ('a proc \<Rightarrow> nat) \<Rightarrow> nat \<Rightarrow> nat \<Rightarrow> 'a world \<Rightarrow> 'a world" where
  "MPI_Scatter sendbuf sendcount recvbuf recvcount root ps =
     map (\<lambda>r. (ps ! r)\<lparr>mem := store (mem (ps ! r)) (recvbuf (ps ! r))
                  (load (mem (ps ! root)) (sendbuf (ps ! root) + r * sendcount) recvcount)\<rparr>)
       [0..<length ps]"

text \<open>
  Modelled from the spec: \<^verbatim>\<open>MPI_Bcast\<close> (library routine, not in the sources).  Sections
  4.3 and 6: the content of the root's buffer is replicated into the buffer of every
  participant.
\<close>

definition MPI_Bcast :: "('a proc \<Rightarrow> nat) \<Rightarrow> nat \<Rightarrow> nat \<Rightarrow> 'a world \<Rightarrow> 'a world" where
  "MPI_Bcast buffer count root ps =
     map (\<lambda>p. p\<lparr>mem := store (mem p) (buffer p) (load (mem (ps ! root)) (buffer (ps ! root)) count)\<rparr>) ps"

text \<open>
  Modelled from the spec: \<^verbatim>\<open>MPI_Gather\<close> (library routine, not in the sources).  Sections
  4.5 and 6: the send buffer of participant \<open>r\<close> is placed into the root's receive buffer
  at block \<open>r\<close>, in the block order of the scatter; only the root receives.
\<close>

definition MPI_Gather ::
  "('a proc \<Rightarrow> nat) \<Rightarrow> nat \<Rightarrow> ('a proc \<Rightarrow> nat) \<Rightarrow> nat \<Rightarrow> nat \<Rightarrow> 'a world \<Rightarrow> 'a world" where
  "MPI_Gather sendbuf sendcount recvbuf recvcount root ps =
     ps[root := (ps ! root)\<lparr>mem :=
          foldl (\<lambda>h r. store h (recvbuf (ps ! root) + r * recvcount)
                          (load (mem (ps ! r)) (sendbuf (ps ! r)) sendcount))
            (mem (ps ! root)) [0..<length ps]\<rparr>]"

text \<open>
  Modelled from the spec: \<^verbatim>\<open>MPI_Barrier\<close> (library routine, not in the sources).  Section
  6: it blocks until every participant has called it, and moves no data.
\<close>

definition MPI_Barrier :: "'a world \<Rightarrow> 'a world" where
  "MPI_Barrier ps = ps"

section \<open>The timed section of main\<close>

text \<open>
  Lines 152 to 191 of \<^verbatim>\<open>main\<close>, run by a group that passed validation and allocation.
  \<open>world_size\<close> is the length of the group; \<^verbatim>\<open>/\<close> on \<^verbatim>\<open>int\<close> truncates (\<open>sdiv\<close>).  The
  counts \<^verbatim>\<open>local_rows * n\<close> and \<^verbatim>\<open>n * n\<close> are products in \<^verbatim>\<open>int\<close>: a phase has no result
  when its count does not fit.
\<close>

definition scatter_phase :: "int \<Rightarrow> 'a world \<Rightarrow> 'a world option" where
  "scatter_phase n ps =
     (let world_size = int (length ps); local_rows = n sdiv world_size
      in map_option (\<lambda>count. MPI_Scatter A (nat count) A_local (nat count) 0 ps)
           (int_mul local_rows n))"

text \<open>The loop of lines 169 to 171; its bound \<^verbatim>\<open>n * n\<close> is a product in \<^verbatim>\<open>int\<close>.\<close>

definition copy_B :: "int \<Rightarrow> 'a proc \<Rightarrow> 'a proc option" where
  "copy_B n p =
     map_option
       (\<lambda>bound. p\<lparr>mem := foldl (\<lambda>h i. h(B_local p + i := h (B p + i))) (mem p) [0..<nat bound]\<rparr>)
       (int_mul n n)"

definition broadcast_phase :: "int \<Rightarrow> 'a world \<Rightarrow> 'a world option" where
  "broadcast_phase n ps =
     Option.bind (every_rank (\<lambda>world_rank p. if world_rank = 0 then copy_B n p else Some p) ps)
       (\<lambda>ps. map_option (\<lambda>count. MPI_Bcast B_local (nat count) 0 ps) (int_mul n n))"

definition multiply_phase :: "int \<Rightarrow> 'a::{zero,plus,times} world \<Rightarrow> 'a world option" where
  "multiply_phase n ps =
     (let world_size = int (length ps); local_rows = n sdiv world_size
      in every_rank (\<lambda>world_rank p.
           map_option (\<lambda>h. p\<lparr>mem := h\<rparr>)
             (multiply_matrices (mem p) (A_local p) (B_local p) (C_local p) local_rows n)) ps)"

definition gather_phase :: "int \<Rightarrow> 'a world \<Rightarrow> 'a world option" where
  "gather_phase n ps =
     (let world_size = int (length ps); local_rows = n sdiv world_size
      in map_option (\<lambda>count. MPI_Gather C_local (nat count) C (nat count) 0 ps)
           (int_mul local_rows n))"

definition timed_section :: "int \<Rightarrow> 'a::{zero,plus,times} world \<Rightarrow> 'a world option" where
  "timed_section n ps =
     Option.bind (scatter_phase n (MPI_Barrier ps)) (\<lambda>ps.
     Option.bind (broadcast_phase n ps) (\<lambda>ps.
     Option.bind (multiply_phase n ps) (\<lambda>ps.
     map_option MPI_Barrier (gather_phase n ps))))"

text \<open>
  The state of a group after lines 119 to 138: the sizes \<^verbatim>\<open>local_rows * n\<close> and
  \<^verbatim>\<open>n * n\<close> have been computed in \<^verbatim>\<open>int\<close>, and every \<^verbatim>\<open>malloc\<close> has returned a block of the
  requested number of elements; blocks of one participant do not overlap each other.
  Their initial contents are arbitrary.
\<close>

definition buffers :: "int \<Rightarrow> int \<Rightarrow> nat \<Rightarrow> 'a proc \<Rightarrow> (nat \<times> nat) list" where
  "buffers n local_rows world_rank p =
     [(A_local p, nat (local_rows * n)), (B_local p, nat (n * n)), (C_local p, nat (local_rows * n))]
     @ (if world_rank = 0 then [(A p, nat (n * n)), (B p, nat (n * n)), (C p, nat (n * n))] else [])"

fun all_separate :: "(nat \<times> nat) list \<Rightarrow> bool" where
  "all_separate [] = True"
| "all_separate ((p, m) # rs) = (list_all (\<lambda>(q, l). separate p m q l) rs \<and> all_separate rs)"

definition allocated :: "int \<Rightarrow> 'a world \<Rightarrow> bool" where
  "allocated n ps \<longleftrightarrow>
     in_int (n sdiv int (length ps) * n) \<and> in_int (n * n) \<and>
     list_all (\<lambda>r. all_separate (buffers n (n sdiv int (length ps)) r (ps ! r))) [0..<length ps]"

text \<open>
  The product the specification names: entry \<open>(i, j)\<close> of the row-major result is the sum
  over \<open>k\<close> of \<open>a[i][k] * b[k][j]\<close>, from \<^verbatim>\<open>0.0\<close> in increasing \<open>k\<close>.
\<close>

definition matrix_product :: "nat \<Rightarrow> 'a::{zero,plus,times} list \<Rightarrow> 'a list \<Rightarrow> 'a list" where
  "matrix_product n a b =
     map (\<lambda>x. foldl (\<lambda>acc k. acc + a ! (x div n * n + k) * b ! (k * n + x mod n)) 0 [0..<n])
       [0..<n * n]"

text \<open>The identity matrix of size \<open>m\<close>, row-major.\<close>

definition identity_matrix :: "nat \<Rightarrow> 'a::{zero,one} list" where
  "identity_matrix m = map (\<lambda>x. if x div m = x mod m then 1 else 0) [0..<m * m]"

text \<open>
  The result of a run: the \<open>n * n\<close> elements of the coordinator's \<open>C\<close> after the timed
  section, which rank 0 prints when \<open>n \<le> 10\<close> (lines 194 to 197).
\<close>

definition result_C :: "int \<Rightarrow> 'a world \<Rightarrow> 'a list" where
  "result_C n ps = load (mem (ps ! 0)) (C (ps ! 0)) (nat (n * n))"

section \<open>The same computations without the bounds of int\<close>

text \<open>
  Auxiliary definitions for the proofs: the loops and the phases above with sizes and
  indices taken as natural numbers.  They describe the program only through the lemmas
  \<open>multiply_matrices_in_range\<close> and \<open>timed_section_in_range\<close> below, which show that the
  program computes the same when every product fits \<^verbatim>\<open>int\<close>.
\<close>

definition k_loop_exact ::
  "'a::{zero,plus,times} mem \<Rightarrow> nat \<Rightarrow> nat \<Rightarrow> nat \<Rightarrow> nat \<Rightarrow> nat \<Rightarrow> nat \<Rightarrow> 'a mem" where
  "k_loop_exact h a b c n i j =
     foldl (\<lambda>h k. h(c + (i * n + j) := h (c + (i * n + j)) + h (a + (i * n + k)) * h (b + (k * n + j))))
       h [0..<n]"

definition j_loop_exact ::
  "'a::{zero,plus,times} mem \<Rightarrow> nat \<Rightarrow> nat \<Rightarrow> nat \<Rightarrow> nat \<Rightarrow> nat \<Rightarrow> 'a mem" where
  "j_loop_exact h a b c n i =
     foldl (\<lambda>h j. k_loop_exact (h(c + (i * n + j) := 0)) a b c n i j) h [0..<n]"

definition multiply_exact ::
  "'a::{zero,plus,times} mem \<Rightarrow> nat \<Rightarrow> nat \<Rightarrow> nat \<Rightarrow> int \<Rightarrow> int \<Rightarrow> 'a mem" where
  "multiply_exact h a b c local_rows n =
     foldl (\<lambda>h i. j_loop_exact h a b c (nat n) i) h [0..<nat local_rows]"

definition every_rank_exact :: "(nat \<Rightarrow> 'a proc \<Rightarrow> 'a proc) \<Rightarrow> 'a world \<Rightarrow> 'a world" where
  "every_rank_exact f ps = map (\<lambda>world_rank. f world_rank (ps ! world_rank)) [0..<length ps]"

definition scatter_exact :: "int \<Rightarrow> 'a world \<Rightarrow> 'a world" where
  "scatter_exact n ps =
     (let world_size = int (length ps); local_rows = n sdiv world_size
      in MPI_Scatter A (nat (local_rows * n)) A_local (nat (local_rows * n)) 0 ps)"

definition copy_exact :: "int \<Rightarrow> 'a proc \<Rightarrow> 'a proc" where
  "copy_exact n p = p\<lparr>mem := foldl (\<lambda>h i. h(B_local p + i := h (B p + i))) (mem p) [0..<nat (n * n)]\<rparr>"

definition broadcast_exact :: "int \<Rightarrow> 'a world \<Rightarrow> 'a world" where
  "broadcast_exact n ps =
     MPI_Bcast B_local (nat (n * n)) 0
       (every_rank_exact (\<lambda>world_rank p. if world_rank = 0 then copy_exact n p else p) ps)"

definition multiply_phase_exact :: "int \<Rightarrow> 'a::{zero,plus,times} world \<Rightarrow> 'a world" where
  "multiply_phase_exact n ps =
     (let world_size = int (length ps); local_rows = n sdiv world_size
      in every_rank_exact (\<lambda>world_rank p.
           p\<lparr>mem := multiply_exact (mem p) (A_local p) (B_local p) (C_local p) local_rows n\<rparr>) ps)"

definition gather_exact :: "int \<Rightarrow> 'a world \<Rightarrow> 'a world" where
  "gather_exact n ps =
     (let world_size = int (length ps); local_rows = n sdiv world_size
      in MPI_Gather C_local (nat (local_rows * n)) C (nat (local_rows * n)) 0 ps)"

definition timed_exact :: "int \<Rightarrow> 'a::{zero,plus,times} world \<Rightarrow> 'a world" where
  "timed_exact n ps =
     MPI_Barrier (gather_exact n (multiply_phase_exact n (broadcast_exact n (scatter_exact n (MPI_Barrier ps)))))"

section \<open>Example inputs\<close>

text \<open>
  A group of one and a group of two for the matrices \<open>A = ((1, 2), (3, 4))\<close> and
  \<open>B = ((5, 6), (7, 8))\<close> of the specification, with \<open>n = 2\<close>.
\<close>

definition coordinator_example :: "int proc" where
  "coordinator_example = \<lparr>mem = store (\<lambda>a. 0) 0 [1, 2, 3, 4, 5, 6, 7, 8],
      A = 0, B = 4, C = 8, A_local = 12, B_local = 16, C_local = 20\<rparr>"

definition worker_example :: "int proc" where
  "worker_example = \<lparr>mem = (\<lambda>a. 0), A = 0, B = 0, C = 0, A_local = 0, B_local = 2, C_local = 6\<rparr>"

text \<open>A coordinator for \<open>n = 2\<close> whose \<open>B\<close> is the identity matrix.\<close>

definition coordinator_identity :: "int proc" where
  "coordinator_identity = \<lparr>mem = store (\<lambda>a. 0) 0 [1, 2, 3, 4, 1, 0, 0, 1],
      A = 0, B = 4, C = 8, A_local = 12, B_local = 16, C_local = 20\<rparr>"

text \<open>
  A group of two that gathers from the buffer it scattered into: \<open>C_local\<close> is the slice
  buffer \<open>A_local\<close>.
\<close>

definition coordinator_roundtrip :: "int proc" where
  "coordinator_roundtrip = \<lparr>mem = store (\<lambda>a. 0) 0 [1, 2, 3, 4],
      A = 0, B = 4, C = 8, A_local = 12, B_local = 16, C_local = 12\<rparr>"

definition worker_roundtrip :: "int proc" where
  "worker_roundtrip = \<lparr>mem = (\<lambda>a. 0), A = 0, B = 0, C = 0, A_local = 0, B_local = 2, C_local = 0\<rparr>"

text \<open>A memory for runs of the kernel alone: operands at 0 and 4, output at 8.\<close>

definition kernel_memory :: "int mem" where
  "kernel_memory = store (\<lambda>a. 0) 0 [1, 2, 3, 4, 5, 6, 7, 8]"

text \<open>
  Values of the C type \<^verbatim>\<open>double\<close> that suffice for an example with an infinity: integers
  (exact in double precision while small; the sign of zero is left out), the two
  infinities and NaN, with the sums and products IEEE 754 gives them.
\<close>

datatype xdouble = Fin int | PInf | NInf | NaN

instantiation xdouble :: "{zero,one,plus,times}"
begin

definition zero_xdouble :: xdouble where
  "zero_xdouble = Fin 0"

definition one_xdouble :: xdouble where
  "one_xdouble = Fin 1"

fun plus_xdouble :: "xdouble \<Rightarrow> xdouble \<Rightarrow> xdouble" where
  "plus_xdouble NaN y = NaN"
| "plus_xdouble x NaN = NaN"
| "plus_xdouble PInf NInf = NaN"
| "plus_xdouble NInf PInf = NaN"
| "plus_xdouble PInf y = PInf"
| "plus_xdouble x PInf = PInf"
| "plus_xdouble NInf y = NInf"
| "plus_xdouble x NInf = NInf"
| "plus_xdouble (Fin a) (Fin b) = Fin (a + b)"

fun times_xdouble :: "xdouble \<Rightarrow> xdouble \<Rightarrow> xdouble" where
  "times_xdouble NaN y = NaN"
| "times_xdouble x NaN = NaN"
| "times_xdouble PInf PInf = PInf"
| "times_xdouble PInf NInf = NInf"
| "times_xdouble NInf PInf = NInf"
| "times_xdouble NInf NInf = PInf"
| "times_xdouble PInf (Fin b) = (if b = 0 then NaN else if 0 < b then PInf else NInf)"
| "times_xdouble (Fin a) PInf = (if a = 0 then NaN else if 0 < a then PInf else NInf)"
| "times_xdouble NInf (Fin b) = (if b = 0 then NaN else if 0 < b then NInf else PInf)"
| "times_xdouble (Fin a) NInf = (if a = 0 then NaN else if 0 < a then NInf else PInf)"
| "times_xdouble (Fin a) (Fin b) = Fin (a * b)"

instance ..

end

text \<open>A coordinator for \<open>n = 2\<close> with \<open>A = ((\<infinity>, 2), (3, 4))\<close> and the identity matrix as \<open>B\<close>.\<close>

definition coordinator_infinity :: "xdouble proc" where
  "coordinator_infinity =
     \<lparr>mem = store (\<lambda>a. Fin 0) 0 [PInf, Fin 2, Fin 3, Fin 4, Fin 1, Fin 0, Fin 0, Fin 1],
      A = 0, B = 4, C = 8, A_local = 12, B_local = 16, C_local = 20\<rparr>"

text \<open>
  A coordinator for \<open>n = 46341\<close>, the least size whose square, 2147488281, is not a value
  of \<^verbatim>\<open>int\<close>.  Its six buffers of \<open>n * n\<close> elements follow one another in memory, and the
  cells from the start of \<open>B\<close> on hold the identity matrix.
\<close>

definition identity_memory :: "nat \<Rightarrow> nat \<Rightarrow> int mem" where
  "identity_memory m b = (\<lambda>x. if b \<le> x \<and> (x - b) div m = (x - b) mod m then 1 else 0)"

definition coordinator_large :: "int proc" where
  "coordinator_large = \<lparr>mem = identity_memory 46341 2147488281,
      A = 0, B = 2147488281, C = 4294976562,
      A_local = 6442464843, B_local = 8589953124, C_local = 10737441405\<rparr>"

section \<open>Control flow of main\<close>

text \<open>
  One participant's run of \<^verbatim>\<open>main\<close> (lines 62 to 227) as the sequence of calls it makes
  and the way it ends.  \<^verbatim>\<open>atoi\<close> and the success of each \<^verbatim>\<open>malloc\<close> are parameters;
  \<open>world_size\<close> and \<open>world_rank\<close> are what the library reports.  \<^verbatim>\<open>/\<close> and \<^verbatim>\<open>%\<close> truncate
  (\<open>sdiv\<close>, \<open>smod\<close>).  Buffer sizes are counted in elements.  The first product that does
  not fit \<^verbatim>\<open>int\<close> (\<^verbatim>\<open>n * n\<close> in line 112 on rank 0, \<^verbatim>\<open>local_rows * n\<close> in line 119,
  \<^verbatim>\<open>n * n\<close> in line 120) ends the modelled run with the outcome \<open>Undefined\<close>; when these
  fit, every later size and index of the run fits too.
\<close>

datatype buffer = A_local_buffer | B_local_buffer | C_local_buffer | A_buffer | B_buffer | C_buffer

datatype collective = Barrier | Scatter | Bcast | Gather

datatype message =
    Size_error int int
  | Divisibility_error int int
  | Configuration int int int
  | Local_allocation_failed int
  | Full_allocation_failed
  | Initializing
  | Show_matrix buffer
  | Blank_line
  | Distributing
  | Broadcasting
  | Computing
  | Gathering
  | Results

datatype event =
    MPI_Init
  | MPI_Finalize
  | MPI_Abort int
  | Print message
  | Malloc buffer int bool
  | Free buffer
  | Collective collective
  | Initialize_matrix buffer
  | Copy_B_to_B_local
  | Multiply_matrices
  | MPI_Wtime

datatype outcome = Return int | Abort int | Undefined

definition problem_size :: "(string \<Rightarrow> int) \<Rightarrow> string list \<Rightarrow> int" where
  "problem_size atoi argv = (if length argv > 1 then atoi (argv ! 1) else 100)"

definition rank0 :: "int \<Rightarrow> event list \<Rightarrow> event list" where
  "rank0 world_rank es = (if world_rank = 0 then es else [])"

definition main ::
  "(string \<Rightarrow> int) \<Rightarrow> string list \<Rightarrow> int \<Rightarrow> int \<Rightarrow> (buffer \<Rightarrow> bool) \<Rightarrow> event list \<times> outcome" where
  "main atoi argv world_size world_rank malloc_ok =
     (let n = problem_size atoi argv;
          init = [MPI_Init]
      in if n < world_size then
           (init @ rank0 world_rank [Print (Size_error n world_size)] @ [MPI_Finalize], Return 1)
         else if n smod world_size \<noteq> 0 then
           (init @ rank0 world_rank [Print (Divisibility_error n world_size)] @ [MPI_Finalize], Return 1)
         else
           (let local_rows = n sdiv world_size;
                configured = init @ rank0 world_rank [Print (Configuration n world_size local_rows)];
                first = configured
                  @ [Malloc A_local_buffer (local_rows * n) (malloc_ok A_local_buffer)];
                local = first
                  @ [Malloc B_local_buffer (n * n) (malloc_ok B_local_buffer),
                     Malloc C_local_buffer (local_rows * n) (malloc_ok C_local_buffer)]
            in if world_rank = 0 \<and> \<not> in_int (n * n) then (init, Undefined)
               else if \<not> in_int (local_rows * n) then (configured, Undefined)
               else if \<not> in_int (n * n) then (first, Undefined)
               else if \<not> malloc_ok A_local_buffer \<or> \<not> malloc_ok B_local_buffer \<or> \<not> malloc_ok C_local_buffer then
                 (local @ [Print (Local_allocation_failed world_rank), MPI_Abort 1], Abort 1)
               else
                 (let full = local @ rank0 world_rank
                        [Print Initializing,
                         Malloc A_buffer (n * n) (malloc_ok A_buffer),
                         Malloc B_buffer (n * n) (malloc_ok B_buffer),
                         Malloc C_buffer (n * n) (malloc_ok C_buffer)]
                  in if world_rank = 0 \<and> (\<not> malloc_ok A_buffer \<or> \<not> malloc_ok B_buffer \<or> \<not> malloc_ok C_buffer) then
                       (full @ [Print Full_allocation_failed, MPI_Abort 1], Abort 1)
                     else
                       (full
                        @ rank0 world_rank
                            ([Initialize_matrix A_buffer, Initialize_matrix B_buffer]
                             @ (if n \<le> 10 then [Print (Show_matrix A_buffer), Print (Show_matrix B_buffer)] else [])
                             @ [Print Blank_line])
                        @ [Collective Barrier, MPI_Wtime]
                        @ rank0 world_rank [Print Distributing] @ [Collective Scatter]
                        @ rank0 world_rank [Print Broadcasting, Copy_B_to_B_local] @ [Collective Bcast]
                        @ rank0 world_rank [Print Computing] @ [Multiply_matrices]
                        @ rank0 world_rank [Print Gathering] @ [Collective Gather]
                        @ [Collective Barrier, MPI_Wtime]
                        @ rank0 world_rank
                            ((if n \<le> 10 then [Print (Show_matrix C_buffer)] else []) @ [Print Results])
                        @ [Free A_local_buffer, Free B_local_buffer, Free C_local_buffer]
                        @ rank0 world_rank [Free A_buffer, Free B_buffer, Free C_buffer]
                        @ [MPI_Finalize],
                        Return 0))))"

fun is_malloc :: "event \<Rightarrow> bool" where
  "is_malloc (Malloc b sz ok) = True"
| "is_malloc e = False"

fun is_collective :: "event \<Rightarrow> bool" where
  "is_collective (Collective c) = True"
| "is_collective e = False"

fun is_diagnostic :: "event \<Rightarrow> bool" where
  "is_diagnostic (Print (Size_error n N)) = True"
| "is_diagnostic (Print (Divisibility_error n N)) = True"
| "is_diagnostic e = False"

fun is_free :: "event \<Rightarrow> bool" where
  "is_free (Free b) = True"
| "is_free e = False"

text \<open>The buffers that are allocated and not freed after a sequence of calls.\<close>

fun track :: "buffer set \<Rightarrow> event \<Rightarrow> buffer set" where
  "track L (Malloc b sz ok) = (if ok then insert b L else L)"
| "track L (Free b) = L - {b}"
| "track L e = L"

definition live_after :: "event list \<Rightarrow> buffer set" where
  "live_after es = foldl track {} es"

text \<open>Inputs of example runs: a parse that yields 2, and allocations that succeed or not.\<close>

definition parse_two :: "string \<Rightarrow> int" where
  "parse_two s = 2"

definition parse_zero :: "string \<Rightarrow> int" where
  "parse_zero s = 0"

definition parse_five :: "string \<Rightarrow> int" where
  "parse_five s = 5"

definition all_succeed :: "buffer \<Rightarrow> bool" where
  "all_succeed b = True"

definition B_local_fails :: "buffer \<Rightarrow> bool" where
  "B_local_fails b \<longleftrightarrow> b \<noteq> B_local_buffer"

section \<open>Properties of the loops without bounds\<close>

lemma acc_cell:
  "\<forall>k\<in>set ks. f k \<noteq> x \<and> g k \<noteq> x \<Longrightarrow>
   foldl (\<lambda>h k. h(x := h x + h (f k) * h (g k))) h ks =
   h(x := foldl (\<lambda>acc k. acc + h (f k) * h (g k)) (h x) ks)"
  by (induction ks rule: rev_induct) auto

lemma k_loop_exact_eq:
  assumes "\<forall>k<n. a + (i * n + k) \<noteq> c + (i * n + j) \<and> b + (k * n + j) \<noteq> c + (i * n + j)"
  shows "k_loop_exact (h(c + (i * n + j) := 0)) a b c n i j
       = h(c + (i * n + j) := dot h a b n i j)"
proof -
  let ?x = "c + (i * n + j)"
  let ?h = "h(?x := 0)"
  have "k_loop_exact ?h a b c n i j =
     ?h(?x := foldl (\<lambda>acc k. acc + ?h (a + (i * n + k)) * ?h (b + (k * n + j))) (?h ?x) [0..<n])"
    unfolding k_loop_exact_def
    using assms by (intro acc_cell[where f="\<lambda>k. a + (i * n + k)" and g="\<lambda>k. b + (k * n + j)" and x="?x"]) auto
  also have "foldl (\<lambda>acc k. acc + ?h (a + (i * n + k)) * ?h (b + (k * n + j))) (?h ?x) [0..<n]
     = dot h a b n i j"
    unfolding dot_def using assms by (intro foldl_cong) auto
  finally show ?thesis by (simp only: fun_upd_upd)
qed

lemma dot_cong:
  "(\<And>k. k < n \<Longrightarrow> h (a + (i * n + k)) = h' (a + (i * n + k)) \<and> h (b + (k * n + j)) = h' (b + (k * n + j)))
   \<Longrightarrow> dot h a b n i j = dot h' a b n i j"
  unfolding dot_def by (intro foldl_cong) auto

lemma cell_bound: "i < m \<Longrightarrow> k < n \<Longrightarrow> i * n + k < m * (n::nat)"
proof -
  assume "i < m" "k < n"
  then have "i * n + k < Suc i * n" by simp
  also have "\<dots> \<le> m * n" using \<open>i < m\<close> by (intro mult_le_mono1) simp
  finally show ?thesis .
qed

lemma j_loop_exact_cols:
  assumes sa: "separate a (lr * n) c (lr * n)" and sb: "separate b (n * n) c (lr * n)"
    and i: "i < lr" and m: "m \<le> n"
  shows "foldl (\<lambda>h j. k_loop_exact (h(c + (i * n + j) := 0)) a b c n i j) h [0..<m]
       = (\<lambda>x. if c + i * n \<le> x \<and> x < c + i * n + m then dot h a b n i (x - (c + i * n)) else h x)"
  using m
proof (induction m)
  case 0
  show ?case by (auto simp: fun_eq_iff)
next
  case (Suc m)
  let ?hm = "\<lambda>x. if c + i * n \<le> x \<and> x < c + i * n + m then dot h a b n i (x - (c + i * n)) else h x"
  have mn: "m < n" using Suc.prems by simp
  have cm: "i * n + m < lr * n" using i mn by (rule cell_bound)
  have ne: "\<forall>k<n. a + (i * n + k) \<noteq> c + (i * n + m) \<and> b + (k * n + m) \<noteq> c + (i * n + m)"
  proof (intro allI impI)
    fix k assume k: "k < n"
    have "i * n + k < lr * n" using i k by (rule cell_bound)
    moreover have "k * n + m < n * n" using k mn by (rule cell_bound)
    ultimately show "a + (i * n + k) \<noteq> c + (i * n + m) \<and> b + (k * n + m) \<noteq> c + (i * n + m)"
      using sa sb cm unfolding separate_def by linarith
  qed
  have dm: "dot ?hm a b n i m = dot h a b n i m"
  proof (rule dot_cong)
    fix k assume k: "k < n"
    have "i * n + k < lr * n" using i k by (rule cell_bound)
    moreover have "k * n + m < n * n" using k mn by (rule cell_bound)
    moreover have "i * n + m \<le> lr * n" using cm by simp
    ultimately show "?hm (a + (i * n + k)) = h (a + (i * n + k)) \<and> ?hm (b + (k * n + m)) = h (b + (k * n + m))"
      using sa sb unfolding separate_def by auto
  qed
  have IH: "foldl (\<lambda>h j. k_loop_exact (h(c + (i * n + j) := 0)) a b c n i j) h [0..<m] = ?hm"
    by (rule Suc.IH) (use mn in simp)
  have "foldl (\<lambda>h j. k_loop_exact (h(c + (i * n + j) := 0)) a b c n i j) h [0..<Suc m]
      = k_loop_exact ((foldl (\<lambda>h j. k_loop_exact (h(c + (i * n + j) := 0)) a b c n i j) h [0..<m])(c + (i * n + m) := 0)) a b c n i m"
    by (simp only: upt_Suc le0 if_True foldl_append foldl.simps)
  also have "\<dots> = k_loop_exact (?hm(c + (i * n + m) := 0)) a b c n i m"
    unfolding IH ..
  also have "\<dots> = ?hm(c + (i * n + m) := dot ?hm a b n i m)"
    using ne by (rule k_loop_exact_eq)
  also have "\<dots> = (\<lambda>x. if c + i * n \<le> x \<and> x < c + i * n + Suc m then dot h a b n i (x - (c + i * n)) else h x)"
    unfolding dm by (rule ext) auto
  finally show ?case .
qed

lemma j_loop_exact_eq:
  assumes "separate a (lr * n) c (lr * n)" and "separate b (n * n) c (lr * n)" and "i < lr"
  shows "j_loop_exact h a b c n i
       = (\<lambda>x. if c + i * n \<le> x \<and> x < c + i * n + n then dot h a b n i (x - (c + i * n)) else h x)"
  unfolding j_loop_exact_def using assms by (intro j_loop_exact_cols) auto

lemma multiply_rows:
  assumes sa: "separate a (lr * n) c (lr * n)" and sb: "separate b (n * n) c (lr * n)"
    and m: "m \<le> lr"
  shows "foldl (\<lambda>h i. j_loop_exact h a b c n i) h [0..<m]
       = (\<lambda>x. if c \<le> x \<and> x < c + m * n then dot h a b n ((x - c) div n) ((x - c) mod n) else h x)"
  using m
proof (induction m)
  case 0
  show ?case by (auto simp: fun_eq_iff)
next
  case (Suc m)
  let ?hm = "\<lambda>x. if c \<le> x \<and> x < c + m * n then dot h a b n ((x - c) div n) ((x - c) mod n) else h x"
  have ml: "m < lr" using Suc.prems by simp
  have mn: "Suc m * n \<le> lr * n" using ml by (intro mult_le_mono1) simp
  have dm: "dot ?hm a b n m j = dot h a b n m j" if j: "j < n" for j
  proof (rule dot_cong)
    fix k assume k: "k < n"
    have "m * n + k < lr * n" using ml k by (rule cell_bound)
    moreover have "k * n + j < n * n" using k j by (rule cell_bound)
    ultimately show "?hm (a + (m * n + k)) = h (a + (m * n + k)) \<and> ?hm (b + (k * n + j)) = h (b + (k * n + j))"
      using sa sb mn unfolding separate_def by auto
  qed
  have "foldl (\<lambda>h i. j_loop_exact h a b c n i) h [0..<Suc m] = j_loop_exact ?hm a b c n m"
    using Suc by simp
  also have "\<dots> = (\<lambda>x. if c + m * n \<le> x \<and> x < c + m * n + n then dot ?hm a b n m (x - (c + m * n)) else ?hm x)"
    using sa sb ml by (rule j_loop_exact_eq)
  also have "\<dots> = (\<lambda>x. if c \<le> x \<and> x < c + Suc m * n then dot h a b n ((x - c) div n) ((x - c) mod n) else h x)"
  proof (rule ext)
    fix x
    show "(if c + m * n \<le> x \<and> x < c + m * n + n then dot ?hm a b n m (x - (c + m * n)) else ?hm x)
        = (if c \<le> x \<and> x < c + Suc m * n then dot h a b n ((x - c) div n) ((x - c) mod n) else h x)"
    proof (cases "c + m * n \<le> x \<and> x < c + m * n + n")
      case True
      then obtain j where j: "j < n" and x: "x = c + (m * n + j)"
        by (metis add.assoc le_Suc_ex nat_add_left_cancel_less)
      have "(x - c) div n = m" "(x - c) mod n = j" using j x by simp_all
      then show ?thesis using True j x dm[OF j] by simp
    next
      case False
      then show ?thesis by auto
    qed
  qed
  finally show ?case .
qed

text \<open>What the kernel leaves in memory when the output does not overlap the operands.\<close>

lemma multiply_exact_eq:
  assumes "separate a (nat lr * nat n) c (nat lr * nat n)" and "separate b (nat n * nat n) c (nat lr * nat n)"
  shows "multiply_exact h a b c lr n
       = (\<lambda>x. if c \<le> x \<and> x < c + nat lr * nat n
              then dot h a b (nat n) ((x - c) div nat n) ((x - c) mod nat n) else h x)"
  unfolding multiply_exact_def using assms by (intro multiply_rows) auto

text \<open>Writes of the kernel stay inside the output slice, whatever the pointers are.\<close>

lemma k_loop_exact_frame: "x \<noteq> c + (i * n + j) \<Longrightarrow> k_loop_exact h a b c n i j x = h x"
proof -
  have "x \<noteq> c + (i * n + j) \<Longrightarrow>
        foldl (\<lambda>h k. h(c + (i * n + j) := h (c + (i * n + j)) + h (a + (i * n + k)) * h (b + (k * n + j)))) h ks x = h x" for ks
    by (induction ks rule: rev_induct) auto
  then show "x \<noteq> c + (i * n + j) \<Longrightarrow> k_loop_exact h a b c n i j x = h x"
    unfolding k_loop_exact_def by blast
qed

lemma j_loop_exact_frame:
  assumes "x < c + i * n \<or> c + i * n + n \<le> x"
  shows "j_loop_exact h a b c n i x = h x"
proof -
  have "m \<le> n \<Longrightarrow> foldl (\<lambda>h j. k_loop_exact (h(c + (i * n + j) := 0)) a b c n i j) h [0..<m] x = h x" for m
  proof (induction m)
    case 0 show ?case by simp
  next
    case (Suc m)
    have "x \<noteq> c + (i * n + m)" using assms Suc.prems by linarith
    then show ?case using Suc by (simp add: k_loop_exact_frame)
  qed
  then show ?thesis unfolding j_loop_exact_def by blast
qed

lemma multiply_exact_frame:
  assumes "x < c \<or> c + nat lr * nat n \<le> x"
  shows "multiply_exact h a b c lr n x = h x"
proof -
  have "m \<le> nat lr \<Longrightarrow> foldl (\<lambda>h i. j_loop_exact h a b c (nat n) i) h [0..<m] x = h x" for m
  proof (induction m)
    case 0 show ?case by simp
  next
    case (Suc m)
    have "Suc m * nat n \<le> nat lr * nat n" using Suc.prems by (intro mult_le_mono1) simp
    then have "x < c + m * nat n \<or> c + m * nat n + nat n \<le> x" using assms by auto
    then show ?case using Suc by (simp add: j_loop_exact_frame)
  qed
  then show ?thesis unfolding multiply_exact_def by blast
qed

lemma exact_frame_effect:
  "(\<forall>x. x < c \<or> c + nat local_rows * nat n \<le> x \<longrightarrow>
        multiply_exact h a b c local_rows n x = h x)
   \<and> (separate a (nat local_rows * nat n) c (nat local_rows * nat n) \<longrightarrow>
        load (multiply_exact h a b c local_rows n) a (nat local_rows * nat n)
          = load h a (nat local_rows * nat n))
   \<and> (separate b (nat n * nat n) c (nat local_rows * nat n) \<longrightarrow>
        load (multiply_exact h a b c local_rows n) b (nat n * nat n)
          = load h b (nat n * nat n))"
proof (intro conjI allI impI)
  fix x assume "x < c \<or> c + nat local_rows * nat n \<le> x"
  then show "multiply_exact h a b c local_rows n x = h x"
    by (rule multiply_exact_frame)
next
  assume s: "separate a (nat local_rows * nat n) c (nat local_rows * nat n)"
  show "load (multiply_exact h a b c local_rows n) a (nat local_rows * nat n)
          = load h a (nat local_rows * nat n)"
    unfolding load_def
  proof (rule map_cong[OF refl])
    fix o' assume "o' \<in> set [0..<nat local_rows * nat n]"
    then have "a + o' < c \<or> c + nat local_rows * nat n \<le> a + o'"
      using s unfolding separate_def by auto
    then show "multiply_exact h a b c local_rows n (a + o') = h (a + o')"
      by (rule multiply_exact_frame)
  qed
next
  assume s: "separate b (nat n * nat n) c (nat local_rows * nat n)"
  show "load (multiply_exact h a b c local_rows n) b (nat n * nat n)
          = load h b (nat n * nat n)"
    unfolding load_def
  proof (rule map_cong[OF refl])
    fix o' assume "o' \<in> set [0..<nat n * nat n]"
    then have "b + o' < c \<or> c + nat local_rows * nat n \<le> b + o'"
      using s unfolding separate_def by auto
    then show "multiply_exact h a b c local_rows n (b + o') = h (b + o')"
      by (rule multiply_exact_frame)
  qed
qed

section \<open>Properties of the phases without bounds\<close>

lemma length_load [simp]: "length (load h p len) = len"
  by (simp add: load_def)

lemma nth_load [simp]: "i < len \<Longrightarrow> load h p len ! i = h (p + i)"
  by (simp add: load_def)

lemma store_outside: "x < p \<or> p + length xs \<le> x \<Longrightarrow> store h p xs x = h x"
  by (auto simp: store_def)

lemma store_load_at: "i < len \<Longrightarrow> store h p (load h' q len) (p + i) = h' (q + i)"
  by (simp add: store_def)

lemma load_cong: "(\<And>i. i < len \<Longrightarrow> h (p + i) = h' (q + i)) \<Longrightarrow> load h p len = load h' q len"
  by (simp add: load_def)

lemma nth_every_rank_exact: "r < length ps \<Longrightarrow> every_rank_exact f ps ! r = f r (ps ! r)"
  by (simp add: every_rank_exact_def)

lemma length_every_rank_exact [simp]: "length (every_rank_exact f ps) = length ps"
  by (simp add: every_rank_exact_def)

lemma length_MPI_Scatter [simp]: "length (MPI_Scatter sb sc rb rc root ps) = length ps"
  by (simp add: MPI_Scatter_def)

lemma nth_MPI_Scatter:
  "r < length ps \<Longrightarrow> MPI_Scatter sb sc rb rc root ps ! r =
     (ps ! r)\<lparr>mem := store (mem (ps ! r)) (rb (ps ! r)) (load (mem (ps ! root)) (sb (ps ! root) + r * sc) rc)\<rparr>"
  by (simp add: MPI_Scatter_def)

lemma length_MPI_Bcast [simp]: "length (MPI_Bcast buf cnt root ps) = length ps"
  by (simp add: MPI_Bcast_def)

lemma nth_MPI_Bcast:
  "r < length ps \<Longrightarrow> MPI_Bcast buf cnt root ps ! r =
     (ps ! r)\<lparr>mem := store (mem (ps ! r)) (buf (ps ! r)) (load (mem (ps ! root)) (buf (ps ! root)) cnt)\<rparr>"
  by (simp add: MPI_Bcast_def)

lemma length_MPI_Gather [simp]: "length (MPI_Gather sb sc rb rc root ps) = length ps"
  by (simp add: MPI_Gather_def)

lemma gather_blocks:
  "foldl (\<lambda>h r. store h (rb + r * cnt) (load (hs r) (sb r) cnt)) h0 [0..<K] x
   = (if rb \<le> x \<and> x < rb + K * cnt then hs ((x - rb) div cnt) (sb ((x - rb) div cnt) + (x - rb) mod cnt) else h0 x)"
proof (induction K)
  case 0
  show ?case by auto
next
  case (Suc K)
  show ?case
  proof (cases "rb + K * cnt \<le> x \<and> x < rb + K * cnt + cnt")
    case True
    then obtain o' where o': "o' < cnt" and x: "x = rb + (K * cnt + o')"
      by (metis add.assoc le_Suc_ex nat_add_left_cancel_less)
    have "(x - rb) div cnt = K" "(x - rb) mod cnt = o'" using o' x by simp_all
    then show ?thesis using True o' x by (simp add: store_def)
  next
    case False
    then show ?thesis using Suc by (auto simp: store_def)
  qed
qed

lemma copy_cells:
  assumes "separate b K bl K" and "K' \<le> K"
  shows "foldl (\<lambda>h i. h(bl + i := h (b + i))) h [0..<K']
       = (\<lambda>x. if bl \<le> x \<and> x < bl + K' then h (b + (x - bl)) else h x)"
  using assms(2)
proof (induction K')
  case 0
  show ?case by (auto simp: fun_eq_iff)
next
  case (Suc K')
  have IH: "foldl (\<lambda>h i. h(bl + i := h (b + i))) h [0..<K']
       = (\<lambda>x. if bl \<le> x \<and> x < bl + K' then h (b + (x - bl)) else h x)"
    by (rule Suc.IH) (use Suc.prems in simp)
  have "foldl (\<lambda>h i. h(bl + i := h (b + i))) h [0..<Suc K']
      = (foldl (\<lambda>h i. h(bl + i := h (b + i))) h [0..<K'])(bl + K' :=
           (foldl (\<lambda>h i. h(bl + i := h (b + i))) h [0..<K']) (b + K'))"
    by (simp only: upt_Suc le0 if_True foldl_append foldl.simps)
  also have "\<dots> = (\<lambda>x. if bl \<le> x \<and> x < bl + Suc K' then h (b + (x - bl)) else h x)"
    unfolding IH using assms(1) Suc.prems unfolding separate_def by (auto simp: fun_eq_iff)
  finally show ?case .
qed

lemma copy_as_store:
  assumes "separate b K bl K"
  shows "foldl (\<lambda>h i. h(bl + i := h (b + i))) h [0..<K] = store h bl (load h b K)"
  unfolding copy_cells[OF assms order_refl] by (auto simp: fun_eq_iff store_def)

lemma store_store_same: "length xs = length ys \<Longrightarrow> store (store h p xs) p ys = store h p ys"
  by (auto simp: fun_eq_iff store_def)

text \<open>Sizes of a validated configuration, on natural numbers.\<close>

lemma config_sizes:
  assumes "ps \<noteq> []" and "int (length ps) \<le> n"
  shows "n sdiv int (length ps) = int (nat n div length ps)"
    and "nat (n sdiv int (length ps) * n) = nat n div length ps * nat n"
    and "nat (n * n) = nat n * nat n"
proof -
  have n0: "0 \<le> n" using assms(2) by simp
  have N0: "0 < int (length ps)" using assms(1) by simp
  show 1: "n sdiv int (length ps) = int (nat n div length ps)"
    using n0 N0 by (simp add: signed_divide_int_def zdiv_int sgn_if)
  show "nat (n sdiv int (length ps) * n) = nat n div length ps * nat n"
    unfolding 1 using n0 by (simp add: nat_mult_distrib)
  show "nat (n * n) = nat n * nat n"
    using n0 by (simp add: nat_mult_distrib)
qed

lemma blocks_cover:
  assumes "ps \<noteq> []" and "nat n mod length ps = 0"
  shows "length ps * (nat n div length ps * nat n) = nat n * nat n"
  using assms by (metis mult.assoc mult_div_mod_eq add.right_neutral)

lemma nth_scatter_exact:
  assumes "ps \<noteq> []" and "int (length ps) \<le> n" and "r < length ps"
  shows "scatter_exact n ps ! r =
     (ps ! r)\<lparr>mem := store (mem (ps ! r)) (A_local (ps ! r))
        (load (mem (ps ! 0)) (A (ps ! 0) + r * (nat n div length ps * nat n)) (nat n div length ps * nat n))\<rparr>"
  unfolding scatter_exact_def Let_def config_sizes(2)[OF assms(1,2)]
  using assms(3) by (rule nth_MPI_Scatter)

lemma nth_broadcast_exact:
  assumes "ps \<noteq> []" and "int (length ps) \<le> n" and "r < length ps"
    and sep: "separate (B (ps ! 0)) (nat n * nat n) (B_local (ps ! 0)) (nat n * nat n)"
  shows "broadcast_exact n ps ! r =
     (ps ! r)\<lparr>mem := store (mem (ps ! r)) (B_local (ps ! r)) (load (mem (ps ! 0)) (B (ps ! 0)) (nat n * nat n))\<rparr>"
proof -
  let ?K = "nat n * nat n"
  let ?qs = "every_rank_exact (\<lambda>world_rank p. if world_rank = 0 then copy_exact n p else p) ps"
  have N: "0 < length ps" using assms(1) by simp
  have q0: "?qs ! 0 = (ps ! 0)\<lparr>mem := store (mem (ps ! 0)) (B_local (ps ! 0)) (load (mem (ps ! 0)) (B (ps ! 0)) ?K)\<rparr>"
    using N by (simp add: nth_every_rank_exact copy_exact_def config_sizes(3)[OF assms(1,2)] copy_as_store[OF sep])
  have qr: "?qs ! r = ps ! r" if "r \<noteq> 0"
    using that assms(3) by (simp add: nth_every_rank_exact)
  have root: "load (mem (?qs ! 0)) (B_local (?qs ! 0)) ?K = load (mem (ps ! 0)) (B (ps ! 0)) ?K"
    unfolding q0 by (intro load_cong) (simp add: store_load_at)
  have "broadcast_exact n ps ! r =
      (?qs ! r)\<lparr>mem := store (mem (?qs ! r)) (B_local (?qs ! r)) (load (mem (?qs ! 0)) (B_local (?qs ! 0)) ?K)\<rparr>"
    unfolding broadcast_exact_def config_sizes(3)[OF assms(1,2)]
    using assms(3) by (intro nth_MPI_Bcast) simp
  also have "\<dots> = (ps ! r)\<lparr>mem := store (mem (ps ! r)) (B_local (ps ! r)) (load (mem (ps ! 0)) (B (ps ! 0)) ?K)\<rparr>"
  proof (cases "r = 0")
    case True
    show ?thesis unfolding root unfolding True q0 by (simp add: store_store_same)
  next
    case False
    show ?thesis unfolding root qr[OF False] ..
  qed
  finally show ?thesis .
qed

lemma nth_multiply_phase_exact:
  assumes "ps \<noteq> []" and "int (length ps) \<le> n" and "r < length ps"
  shows "multiply_phase_exact n ps ! r =
     (ps ! r)\<lparr>mem := multiply_exact (mem (ps ! r)) (A_local (ps ! r)) (B_local (ps ! r)) (C_local (ps ! r))
        (int (nat n div length ps)) n\<rparr>"
  unfolding multiply_phase_exact_def Let_def config_sizes(1)[OF assms(1,2)]
  using assms(3) by (simp add: nth_every_rank_exact)

lemma mem_gather_exact:
  assumes "ps \<noteq> []" and "int (length ps) \<le> n"
  shows "mem (gather_exact n ps ! 0) x =
     (if C (ps ! 0) \<le> x \<and> x < C (ps ! 0) + length ps * (nat n div length ps * nat n)
      then mem (ps ! ((x - C (ps ! 0)) div (nat n div length ps * nat n)))
             (C_local (ps ! ((x - C (ps ! 0)) div (nat n div length ps * nat n)))
                + (x - C (ps ! 0)) mod (nat n div length ps * nat n))
      else mem (ps ! 0) x)"
proof -
  have N: "0 < length ps" using assms(1) by simp
  show ?thesis
    unfolding gather_exact_def Let_def config_sizes(2)[OF assms(1,2)] MPI_Gather_def
    using N by (simp add: gather_blocks[where hs="\<lambda>r. mem (ps ! r)" and sb="\<lambda>r. C_local (ps ! r)"])
qed

lemma length_scatter_exact [simp]: "length (scatter_exact n ps) = length ps"
  by (simp add: scatter_exact_def Let_def)

lemma length_broadcast_exact [simp]: "length (broadcast_exact n ps) = length ps"
  by (simp add: broadcast_exact_def)

lemma length_multiply_phase_exact [simp]: "length (multiply_phase_exact n ps) = length ps"
  by (simp add: multiply_phase_exact_def Let_def)

lemma length_gather_exact [simp]: "length (gather_exact n ps) = length ps"
  by (simp add: gather_exact_def Let_def)

lemma allocated_nth:
  "allocated n ps \<Longrightarrow> r < length ps \<Longrightarrow> all_separate (buffers n (n sdiv int (length ps)) r (ps ! r))"
  by (simp add: allocated_def list_all_iff)

lemma separate_sym: "separate p m q l \<Longrightarrow> separate q l p m"
  by (auto simp: separate_def)

lemma allocated_local:
  assumes "ps \<noteq> []" and "int (length ps) \<le> n" and "allocated n ps" and "r < length ps"
  shows "separate (A_local (ps ! r)) (nat n div length ps * nat n) (B_local (ps ! r)) (nat n * nat n)"
    and "separate (A_local (ps ! r)) (nat n div length ps * nat n) (C_local (ps ! r)) (nat n div length ps * nat n)"
    and "separate (B_local (ps ! r)) (nat n * nat n) (C_local (ps ! r)) (nat n div length ps * nat n)"
  using allocated_nth[OF assms(3,4)]
  by (simp_all add: buffers_def config_sizes(2,3)[OF assms(1,2)])

lemma allocated_root:
  assumes "ps \<noteq> []" and "int (length ps) \<le> n" and "allocated n ps"
  shows "separate (A_local (ps ! 0)) (nat n div length ps * nat n) (B (ps ! 0)) (nat n * nat n)"
    and "separate (B (ps ! 0)) (nat n * nat n) (B_local (ps ! 0)) (nat n * nat n)"
proof -
  have "0 < length ps" using assms(1) by simp
  from allocated_nth[OF assms(3) this]
  have 1: "separate (A_local (ps ! 0)) (nat n div length ps * nat n) (B (ps ! 0)) (nat n * nat n)"
    and 2: "separate (B_local (ps ! 0)) (nat n * nat n) (B (ps ! 0)) (nat n * nat n)"
    by (simp_all add: buffers_def config_sizes(2,3)[OF assms(1,2)])
  show "separate (A_local (ps ! 0)) (nat n div length ps * nat n) (B (ps ! 0)) (nat n * nat n)"
    by (rule 1)
  show "separate (B (ps ! 0)) (nat n * nat n) (B_local (ps ! 0)) (nat n * nat n)"
    using 2 by (rule separate_sym)
qed

text \<open>The operands every participant holds when the kernel starts.\<close>

lemma operands_before_multiply:
  assumes ne: "ps \<noteq> []" and le: "int (length ps) \<le> n" and al: "allocated n ps" and r: "r < length ps"
  shows "broadcast_exact n (scatter_exact n ps) ! r =
     (ps ! r)\<lparr>mem := store (store (mem (ps ! r)) (A_local (ps ! r))
                          (load (mem (ps ! 0)) (A (ps ! 0) + r * (nat n div length ps * nat n)) (nat n div length ps * nat n)))
                       (B_local (ps ! r)) (load (mem (ps ! 0)) (B (ps ! 0)) (nat n * nat n))\<rparr>"
proof -
  let ?cnt = "nat n div length ps * nat n"
  let ?K = "nat n * nat n"
  let ?ps1 = "scatter_exact n ps"
  have N: "0 < length ps" using ne by simp
  have "length ?ps1 \<noteq> 0" using N by simp
  then have ne1: "?ps1 \<noteq> []" by (simp only: length_0_conv not_False_eq_True)
  have le1: "int (length ?ps1) \<le> n" using le by simp
  have r1: "r < length ?ps1" using r by simp
  have p1: "?ps1 ! q = (ps ! q)\<lparr>mem := store (mem (ps ! q)) (A_local (ps ! q))
        (load (mem (ps ! 0)) (A (ps ! 0) + q * ?cnt) ?cnt)\<rparr>" if "q < length ps" for q
    using ne le that by (rule nth_scatter_exact)
  have sep1: "separate (B (?ps1 ! 0)) ?K (B_local (?ps1 ! 0)) ?K"
    using allocated_root(2)[OF ne le al] by (simp add: p1[OF N])
  have rootB: "load (mem (?ps1 ! 0)) (B (?ps1 ! 0)) ?K = load (mem (ps ! 0)) (B (ps ! 0)) ?K"
  proof (rule load_cong)
    fix i assume "i < ?K"
    then have "B (ps ! 0) + i < A_local (ps ! 0) \<or> A_local (ps ! 0) + ?cnt \<le> B (ps ! 0) + i"
      using allocated_root(1)[OF ne le al] unfolding separate_def by auto
    then show "mem (?ps1 ! 0) (B (?ps1 ! 0) + i) = mem (ps ! 0) (B (ps ! 0) + i)"
      by (simp add: p1[OF N] store_outside)
  qed
  have "broadcast_exact n ?ps1 ! r =
      (?ps1 ! r)\<lparr>mem := store (mem (?ps1 ! r)) (B_local (?ps1 ! r)) (load (mem (?ps1 ! 0)) (B (?ps1 ! 0)) ?K)\<rparr>"
    using ne1 le1 r1 sep1 by (rule nth_broadcast_exact)
  then show ?thesis unfolding rootB by (simp add: p1[OF r])
qed

lemma nonempty_phase: "length qs = length ps \<Longrightarrow> ps \<noteq> [] \<Longrightarrow> qs \<noteq> []"
  by auto

text \<open>The slice of the product every participant holds when the kernel has returned.\<close>

lemma slice_after_multiply:
  assumes ne: "ps \<noteq> []" and le: "int (length ps) \<le> n" and al: "allocated n ps" and r: "r < length ps"
    and i: "i < nat n div length ps" and j: "j < nat n"
  shows "mem (multiply_phase_exact n (broadcast_exact n (scatter_exact n ps)) ! r)
           (C_local (multiply_phase_exact n (broadcast_exact n (scatter_exact n ps)) ! r) + (i * nat n + j))
       = foldl (\<lambda>acc k. acc + mem (ps ! 0) (A (ps ! 0) + (r * (nat n div length ps * nat n) + (i * nat n + k)))
                               * mem (ps ! 0) (B (ps ! 0) + (k * nat n + j))) 0 [0..<nat n]"
proof -
  let ?m = "nat n"
  let ?lr = "nat n div length ps"
  let ?cnt = "?lr * ?m"
  let ?ps2 = "broadcast_exact n (scatter_exact n ps)"
  let ?h = "store (store (mem (ps ! r)) (A_local (ps ! r)) (load (mem (ps ! 0)) (A (ps ! 0) + r * ?cnt) ?cnt))
                       (B_local (ps ! r)) (load (mem (ps ! 0)) (B (ps ! 0)) (?m * ?m))"
  have n0: "int ?m = n" using le by simp
  have p2: "?ps2 ! r = (ps ! r)\<lparr>mem := ?h\<rparr>"
    using ne le al r by (rule operands_before_multiply)
  have ne2: "?ps2 \<noteq> []" by (rule nonempty_phase[OF _ ne]) simp
  have "multiply_phase_exact n ?ps2 ! r =
     (?ps2 ! r)\<lparr>mem := multiply_exact (mem (?ps2 ! r)) (A_local (?ps2 ! r)) (B_local (?ps2 ! r)) (C_local (?ps2 ! r))
        (int (nat n div length ?ps2)) n\<rparr>"
    by (rule nth_multiply_phase_exact[OF ne2]) (use le r in simp_all)
  then have p3: "multiply_phase_exact n ?ps2 ! r =
     (ps ! r)\<lparr>mem := multiply_exact ?h (A_local (ps ! r)) (B_local (ps ! r)) (C_local (ps ! r)) (int ?lr) (int ?m)\<rparr>"
    unfolding p2 n0 by simp
  have sAB: "separate (A_local (ps ! r)) ?cnt (B_local (ps ! r)) (?m * ?m)"
    and sAC: "separate (A_local (ps ! r)) ?cnt (C_local (ps ! r)) ?cnt"
    and sBC: "separate (B_local (ps ! r)) (?m * ?m) (C_local (ps ! r)) ?cnt"
    using allocated_local[OF ne le al r] by blast+
  have cell: "i * ?m + j < ?cnt" using i j by (rule cell_bound)
  have ij: "(i * ?m + j) div ?m = i" "(i * ?m + j) mod ?m = j" using j by simp_all
  have "mem (multiply_phase_exact n ?ps2 ! r) (C_local (multiply_phase_exact n ?ps2 ! r) + (i * ?m + j))
      = multiply_exact ?h (A_local (ps ! r)) (B_local (ps ! r)) (C_local (ps ! r)) (int ?lr) (int ?m)
          (C_local (ps ! r) + (i * ?m + j))"
    unfolding p3 by simp
  also have "\<dots> = dot ?h (A_local (ps ! r)) (B_local (ps ! r)) ?m i j"
  proof -
    have "multiply_exact ?h (A_local (ps ! r)) (B_local (ps ! r)) (C_local (ps ! r)) (int ?lr) (int ?m)
        = (\<lambda>x. if C_local (ps ! r) \<le> x \<and> x < C_local (ps ! r) + nat (int ?lr) * nat (int ?m)
              then dot ?h (A_local (ps ! r)) (B_local (ps ! r)) (nat (int ?m))
                     ((x - C_local (ps ! r)) div nat (int ?m)) ((x - C_local (ps ! r)) mod nat (int ?m))
              else ?h x)"
      by (rule multiply_exact_eq) (simp_all only: nat_int sAC sBC)
    then show ?thesis using cell ij by (simp only: nat_int) simp
  qed
  also have "\<dots> = foldl (\<lambda>acc k. acc + mem (ps ! 0) (A (ps ! 0) + (r * ?cnt + (i * ?m + k)))
                               * mem (ps ! 0) (B (ps ! 0) + (k * ?m + j))) 0 [0..<?m]"
    unfolding dot_def
  proof (rule foldl_cong[OF refl refl])
    fix acc k assume "k \<in> set [0..<?m]"
    then have k: "k < ?m" by simp
    have ik: "i * ?m + k < ?cnt" using i k by (rule cell_bound)
    have kj: "k * ?m + j < ?m * ?m" using k j by (rule cell_bound)
    have "?h (A_local (ps ! r) + (i * ?m + k))
        = store (mem (ps ! r)) (A_local (ps ! r)) (load (mem (ps ! 0)) (A (ps ! 0) + r * ?cnt) ?cnt)
            (A_local (ps ! r) + (i * ?m + k))"
      using sAB ik unfolding separate_def by (intro store_outside) auto
    also have "\<dots> = mem (ps ! 0) (A (ps ! 0) + r * ?cnt + (i * ?m + k))"
      using ik by (rule store_load_at)
    finally have a: "?h (A_local (ps ! r) + (i * ?m + k)) = mem (ps ! 0) (A (ps ! 0) + (r * ?cnt + (i * ?m + k)))"
      by (simp add: add.assoc)
    have b: "?h (B_local (ps ! r) + (k * ?m + j)) = mem (ps ! 0) (B (ps ! 0) + (k * ?m + j))"
      using kj by (rule store_load_at)
    show "acc + ?h (A_local (ps ! r) + (i * ?m + k)) * ?h (B_local (ps ! r) + (k * ?m + j))
        = acc + mem (ps ! 0) (A (ps ! 0) + (r * ?cnt + (i * ?m + k))) * mem (ps ! 0) (B (ps ! 0) + (k * ?m + j))"
      unfolding a b ..
  qed
  finally show ?thesis .
qed

lemma C_multiplied:
  assumes "ps \<noteq> []" and "int (length ps) \<le> n" and "allocated n ps" and "r < length ps"
  shows "C (multiply_phase_exact n (broadcast_exact n (scatter_exact n ps)) ! r) = C (ps ! r)"
proof -
  let ?ps2 = "broadcast_exact n (scatter_exact n ps)"
  have ne2: "?ps2 \<noteq> []" by (rule nonempty_phase[OF _ assms(1)]) simp
  have "multiply_phase_exact n ?ps2 ! r =
     (?ps2 ! r)\<lparr>mem := multiply_exact (mem (?ps2 ! r)) (A_local (?ps2 ! r)) (B_local (?ps2 ! r)) (C_local (?ps2 ! r))
        (int (nat n div length ?ps2)) n\<rparr>"
    by (rule nth_multiply_phase_exact[OF ne2]) (use assms in simp_all)
  then show ?thesis
    by (simp add: operands_before_multiply[OF assms])
qed

lemma C_gather_exact: "ps \<noteq> [] \<Longrightarrow> C (gather_exact n ps ! 0) = C (ps ! 0)"
  by (simp add: gather_exact_def MPI_Gather_def Let_def)

lemma divmod_block:
  fixes x :: nat
  assumes "x < N * (lr * m)" and "0 < lr" and "0 < m"
  shows "x div (lr * m) < N" and "x mod (lr * m) div m < lr" and "x mod m < m"
    and "x div m * m = x div (lr * m) * (lr * m) + x mod (lr * m) div m * m"
    and "x mod (lr * m) mod m = x mod m"
proof -
  have c: "0 < lr * m" using assms(2,3) by simp
  show "x div (lr * m) < N" using assms(1) c by (simp add: less_mult_imp_div_less)
  have "x mod (lr * m) < lr * m" using c by simp
  then show "x mod (lr * m) div m < lr" using assms(3) by (simp add: less_mult_imp_div_less)
  show "x mod m < m" using assms(3) by simp
  show 5: "x mod (lr * m) mod m = x mod m"
    by (simp add: mod_mod_cancel)
  have "x div m * m + x mod m = x div (lr * m) * (lr * m) + (x mod (lr * m) div m * m + x mod (lr * m) mod m)"
    by (simp only: div_mult_mod_eq)
  then have "x div m * m + x mod m = (x div (lr * m) * (lr * m) + x mod (lr * m) div m * m) + x mod m"
    unfolding 5 by (simp only: add.assoc)
  then show "x div m * m = x div (lr * m) * (lr * m) + x mod (lr * m) div m * m"
    by (simp only: add_right_cancel)
qed

text \<open>The full result on the coordinator, for one group.\<close>

lemma timed_exact_product:
  assumes ne: "ps \<noteq> []" and le: "int (length ps) \<le> n" and dv: "n mod int (length ps) = 0"
    and al: "allocated n ps"
  shows "load (mem (timed_exact n ps ! 0)) (C (timed_exact n ps ! 0)) (nat (n * n))
       = matrix_product (nat n) (load (mem (ps ! 0)) (A (ps ! 0)) (nat (n * n)))
           (load (mem (ps ! 0)) (B (ps ! 0)) (nat (n * n)))"
proof -
  let ?m = "nat n"
  let ?N = "length ps"
  let ?lr = "?m div ?N"
  let ?cnt = "?lr * ?m"
  let ?ps3 = "multiply_phase_exact n (broadcast_exact n (scatter_exact n ps))"
  let ?Al = "load (mem (ps ! 0)) (A (ps ! 0)) (?m * ?m)"
  let ?Bl = "load (mem (ps ! 0)) (B (ps ! 0)) (?m * ?m)"
  have N: "0 < ?N" using ne by simp
  have mN: "?N \<le> ?m" using le by simp
  have m0: "0 < ?m" using N mN by (rule less_le_trans)
  have lr0: "0 < ?lr" using N mN by (simp add: div_greater_zero_iff)
  have "int (?m mod ?N) = 0" using dv le by (simp add: zmod_int)
  then have dvn: "?m mod ?N = 0" by simp
  have cover: "?N * ?cnt = ?m * ?m" using ne dvn by (rule blocks_cover)
  have K: "nat (n * n) = ?m * ?m" using config_sizes(3)[OF ne le] .
  have ne3: "?ps3 \<noteq> []" by (rule nonempty_phase[OF _ ne]) simp
  have le3: "int (length ?ps3) \<le> n" using le by simp
  have C3: "C (?ps3 ! 0) = C (ps ! 0)" using ne le al N by (rule C_multiplied)
  have ts: "timed_exact n ps = gather_exact n ?ps3"
    by (simp add: timed_exact_def MPI_Barrier_def)
  have Cf: "C (timed_exact n ps ! 0) = C (ps ! 0)"
    unfolding ts C_gather_exact[OF ne3] C3 ..
  have entry: "mem (timed_exact n ps ! 0) (C (ps ! 0) + x) = matrix_product ?m ?Al ?Bl ! x" if x: "x < ?m * ?m" for x
  proof -
    let ?r = "x div ?cnt" and ?i = "x mod ?cnt div ?m" and ?j = "x mod ?m"
    have xb: "x < ?N * ?cnt" using x by (simp only: cover)
    note dm = divmod_block[OF xb lr0 m0]
    have o: "x mod ?cnt = ?i * ?m + ?j"
      unfolding dm(5)[symmetric] by (simp only: div_mult_mod_eq)
    have "mem (timed_exact n ps ! 0) (C (ps ! 0) + x)
        = mem (?ps3 ! ?r) (C_local (?ps3 ! ?r) + x mod ?cnt)"
      unfolding ts mem_gather_exact[OF ne3 le3] C3 using xb by simp
    also have "\<dots> = mem (?ps3 ! ?r) (C_local (?ps3 ! ?r) + (?i * ?m + ?j))"
      by (rule arg_cong[where f="\<lambda>y. mem (?ps3 ! ?r) (C_local (?ps3 ! ?r) + y)", OF o])
    also have "\<dots> = foldl (\<lambda>acc k. acc + mem (ps ! 0) (A (ps ! 0) + (?r * ?cnt + (?i * ?m + k)))
                               * mem (ps ! 0) (B (ps ! 0) + (k * ?m + ?j))) 0 [0..<?m]"
      using ne le al dm(1) dm(2) dm(3) by (rule slice_after_multiply)
    also have "\<dots> = foldl (\<lambda>acc k. acc + ?Al ! (x div ?m * ?m + k) * ?Bl ! (k * ?m + x mod ?m)) 0 [0..<?m]"
    proof (rule foldl_cong[OF refl refl])
      fix acc k assume "k \<in> set [0..<?m]"
      then have k: "k < ?m" by simp
      have "x div ?m < ?m" using x m0 by (simp add: less_mult_imp_div_less)
      then have 1: "x div ?m * ?m + k < ?m * ?m" using k by (rule cell_bound)
      have 2: "k * ?m + ?j < ?m * ?m" using k dm(3) by (rule cell_bound)
      show "acc + mem (ps ! 0) (A (ps ! 0) + (?r * ?cnt + (?i * ?m + k))) * mem (ps ! 0) (B (ps ! 0) + (k * ?m + ?j))
          = acc + ?Al ! (x div ?m * ?m + k) * ?Bl ! (k * ?m + x mod ?m)"
        unfolding nth_load[OF 1] nth_load[OF 2] unfolding dm(4) by (simp only: add.assoc)
    qed
    also have "\<dots> = matrix_product ?m ?Al ?Bl ! x"
      using x by (simp add: matrix_product_def)
    finally show ?thesis .
  qed
  show ?thesis
    unfolding K Cf
  proof (rule nth_equalityI)
    show "length (load (mem (timed_exact n ps ! 0)) (C (ps ! 0)) (?m * ?m)) = length (matrix_product ?m ?Al ?Bl)"
      by (simp add: matrix_product_def)
  next
    fix x assume "x < length (load (mem (timed_exact n ps ! 0)) (C (ps ! 0)) (?m * ?m))"
    then have x: "x < ?m * ?m" by simp
    show "load (mem (timed_exact n ps ! 0)) (C (ps ! 0)) (?m * ?m) ! x = matrix_product ?m ?Al ?Bl ! x"
      unfolding nth_load[OF x] using x by (rule entry)
  qed
qed

subsection \<open>Small facts\<close>

lemma sdiv22: "(2::int) sdiv 2 = 1"
  by (simp add: signed_divide_int_def)

subsection \<open>Blocks of rows\<close>

lemma concat_blocks: "concat (map (\<lambda>r. [r * l..<r * l + l]) [0..<K]) = [0..<K * l]"
proof (induction K)
  case 0
  show ?case by simp
next
  case (Suc K)
  have "[0..<K * l] @ [K * l..<K * l + l] = [0..<K * l + l]"
    by (metis le_add1 upt_add_eq_append zero_le)
  then show ?case using Suc by (simp add: add.commute)
qed

lemma blocks_disjoint:
  fixes r s :: nat
  assumes "r \<noteq> s"
  shows "set [r * l..<r * l + l] \<inter> set [s * l..<s * l + l] = {}"
proof -
  have *: "{a * l..<a * l + l} \<inter> {b * l..<b * l + l} = {}" if "a < b" for a b :: nat
  proof -
    have "Suc a * l \<le> b * l" using that by (intro mult_le_mono1) simp
    then show ?thesis by auto
  qed
  show ?thesis
  proof (cases "r < s")
    case True
    then show ?thesis using *[of r s] by simp
  next
    case False
    then have "s < r" using assms by simp
    then show ?thesis using *[of s r] by (simp add: Int_commute)
  qed
qed

lemma union_blocks: "(\<Union>r\<in>{0..<K}. {r * l..<r * l + l}) = {0..<K * (l::nat)}"
proof -
  have "set (concat (map (\<lambda>r. [r * l..<r * l + l]) [0..<K])) = set [0..<K * l]"
    by (simp only: concat_blocks)
  then show ?thesis by simp
qed

lemma exact_row_partition:
  assumes ne: "ps \<noteq> []" and le: "int (length ps) \<le> n" and dv: "n mod int (length ps) = 0"
  shows "(\<forall>r<length ps. \<forall>i<nat (n sdiv int (length ps)).
            load (mem (scatter_exact n ps ! r)) (A_local (scatter_exact n ps ! r) + i * nat n) (nat n)
              = load (mem (ps ! 0)) (A (ps ! 0) + (r * nat (n sdiv int (length ps)) + i) * nat n) (nat n))
       \<and> (\<forall>r<length ps. \<forall>s<length ps. r \<noteq> s \<longrightarrow>
             {r * nat (n sdiv int (length ps))..<r * nat (n sdiv int (length ps)) + nat (n sdiv int (length ps))}
           \<inter> {s * nat (n sdiv int (length ps))..<s * nat (n sdiv int (length ps)) + nat (n sdiv int (length ps))} = {})
       \<and> (\<Union>r\<in>{0..<length ps}.
             {r * nat (n sdiv int (length ps))..<r * nat (n sdiv int (length ps)) + nat (n sdiv int (length ps))})
           = {0..<nat n}"
proof (intro conjI allI impI)
  let ?m = "nat n" and ?N = "length ps"
  let ?lr = "?m div ?N"
  have lr: "nat (n sdiv int ?N) = ?lr" unfolding config_sizes(1)[OF ne le] by simp
  have "int (?m mod ?N) = 0" using dv le by (simp add: zmod_int)
  then have dvn: "?m mod ?N = 0" by simp
  have cover: "?N * ?lr = ?m" using dvn by (metis mult_div_mod_eq add.right_neutral)
  {
    fix r i assume r: "r < ?N" and i: "i < nat (n sdiv int ?N)"
    have i': "i < ?lr" using i unfolding lr .
    show "load (mem (scatter_exact n ps ! r)) (A_local (scatter_exact n ps ! r) + i * ?m) ?m
        = load (mem (ps ! 0)) (A (ps ! 0) + (r * nat (n sdiv int ?N) + i) * ?m) ?m"
      unfolding lr
    proof (rule load_cong)
      fix k assume k: "k < ?m"
      have ik: "i * ?m + k < ?lr * ?m" using i' k by (rule cell_bound)
      have "mem (scatter_exact n ps ! r) (A_local (scatter_exact n ps ! r) + i * ?m + k)
          = store (mem (ps ! r)) (A_local (ps ! r)) (load (mem (ps ! 0)) (A (ps ! 0) + r * (?lr * ?m)) (?lr * ?m))
              (A_local (ps ! r) + (i * ?m + k))"
        unfolding nth_scatter_exact[OF ne le r] by (simp add: add.assoc)
      also have "\<dots> = mem (ps ! 0) (A (ps ! 0) + r * (?lr * ?m) + (i * ?m + k))"
        using ik by (rule store_load_at)
      also have "\<dots> = mem (ps ! 0) (A (ps ! 0) + (r * ?lr + i) * ?m + k)"
        by (simp add: algebra_simps)
      finally show "mem (scatter_exact n ps ! r) (A_local (scatter_exact n ps ! r) + i * ?m + k)
          = mem (ps ! 0) (A (ps ! 0) + (r * ?lr + i) * ?m + k)" .
    qed
  }
  {
    fix r s :: nat assume "r \<noteq> s"
    then have "set [r * ?lr..<r * ?lr + ?lr] \<inter> set [s * ?lr..<s * ?lr + ?lr] = {}"
      by (rule blocks_disjoint)
    then show "{r * nat (n sdiv int ?N)..<r * nat (n sdiv int ?N) + nat (n sdiv int ?N)}
        \<inter> {s * nat (n sdiv int ?N)..<s * nat (n sdiv int ?N) + nat (n sdiv int ?N)} = {}"
      unfolding lr by simp
  }
  show "(\<Union>r\<in>{0..<?N}. {r * nat (n sdiv int ?N)..<r * nat (n sdiv int ?N) + nat (n sdiv int ?N)}) = {0..<?m}"
    unfolding lr union_blocks cover ..
qed

lemma exact_broadcast:
  assumes ne: "ps \<noteq> []" and le: "int (length ps) \<le> n" and al: "allocated n ps"
  shows "\<forall>r<length ps.
           load (mem (broadcast_exact n ps ! r)) (B_local (broadcast_exact n ps ! r)) (nat (n * n))
             = load (mem (ps ! 0)) (B (ps ! 0)) (nat (n * n))"
proof (intro allI impI)
  fix r assume r: "r < length ps"
  have sep: "separate (B (ps ! 0)) (nat n * nat n) (B_local (ps ! 0)) (nat n * nat n)"
    using ne le al by (rule allocated_root(2))
  show "load (mem (broadcast_exact n ps ! r)) (B_local (broadcast_exact n ps ! r)) (nat (n * n))
             = load (mem (ps ! 0)) (B (ps ! 0)) (nat (n * n))"
    unfolding nth_broadcast_exact[OF ne le r sep] config_sizes(3)[OF ne le]
    by (rule load_cong) (simp add: store_load_at)
qed

subsection \<open>Identity as right operand\<close>

lemma identity_column:
  fixes f :: "nat \<Rightarrow> 'a::{zero,one,plus,times}"
  assumes laws: "\<And>k l. k < K \<Longrightarrow> l < K \<Longrightarrow>
      0 + f l * 0 = 0 \<and> 0 + f k * 1 = f k \<and> f k + f l * 0 = f k"
  shows "foldl (\<lambda>acc k. acc + f k * (if k = j then 1 else 0)) 0 [0..<K] = (if j < K then f j else 0)"
  using laws
proof (induction K)
  case 0
  show ?case by simp
next
  case (Suc K)
  have IH: "foldl (\<lambda>acc k. acc + f k * (if k = j then 1 else 0)) 0 [0..<K] = (if j < K then f j else 0)"
  proof (rule Suc.IH)
    fix k l assume "k < K" and "l < K"
    then have "k < Suc K" and "l < Suc K" by simp_all
    then show "0 + f l * 0 = 0 \<and> 0 + f k * 1 = f k \<and> f k + f l * 0 = f k"
      by (rule Suc.prems)
  qed
  have K: "0 + f K * 0 = 0 \<and> 0 + f K * 1 = f K"
    using Suc.prems[of K K] by simp
  have j: "f j + f K * 0 = f j" if "j < K"
    using Suc.prems[of j K] that by simp
  show ?case
    using IH K j by (auto simp: less_Suc_eq)
qed

lemma nth_identity_matrix:
  assumes "k < m" and "j < m"
  shows "identity_matrix m ! (k * m + j) = (if k = j then 1 else 0)"
proof -
  have "k * m + j < m * m" using assms by (rule cell_bound)
  then show ?thesis using assms by (simp add: identity_matrix_def)
qed

lemma matrix_product_identity:
  fixes a :: "'a::{zero,one,plus,times} list"
  assumes len: "length a = m * m"
    and laws: "\<forall>x\<in>set a. \<forall>y\<in>set a. 0 + y * 0 = 0 \<and> 0 + x * 1 = x \<and> x + y * 0 = x"
  shows "matrix_product m a (identity_matrix m) = a"
proof (rule nth_equalityI)
  show "length (matrix_product m a (identity_matrix m)) = length a"
    using len by (simp add: matrix_product_def)
next
  fix x assume "x < length (matrix_product m a (identity_matrix m))"
  then have x: "x < m * m" by (simp add: matrix_product_def)
  then have m0: "0 < m" by (cases m) simp_all
  have row: "x div m < m" using x m0 by (simp add: less_mult_imp_div_less)
  have col: "x mod m < m" using m0 by simp
  have entry: "a ! (x div m * m + k) \<in> set a" if "k < m" for k
  proof -
    from row that have "x div m * m + k < m * m" by (rule cell_bound)
    then show ?thesis using len by simp
  qed
  have "matrix_product m a (identity_matrix m) ! x
      = foldl (\<lambda>acc k. acc + a ! (x div m * m + k) * identity_matrix m ! (k * m + x mod m)) 0 [0..<m]"
    using x by (simp add: matrix_product_def)
  also have "\<dots> = foldl (\<lambda>acc k. acc + a ! (x div m * m + k) * (if k = x mod m then 1 else 0)) 0 [0..<m]"
  proof (rule foldl_cong[OF refl refl])
    fix acc :: 'a and k assume "k \<in> set [0..<m]"
    then have "k < m" by simp
    then show "acc + a ! (x div m * m + k) * identity_matrix m ! (k * m + x mod m)
        = acc + a ! (x div m * m + k) * (if k = x mod m then 1 else 0)"
      using col by (simp only: nth_identity_matrix)
  qed
  also have "\<dots> = (if x mod m < m then a ! (x div m * m + x mod m) else 0)"
  proof (rule identity_column)
    fix k l assume "k < m" and "l < m"
    then have "a ! (x div m * m + k) \<in> set a" and "a ! (x div m * m + l) \<in> set a"
      by (simp_all only: entry)
    then show "0 + a ! (x div m * m + l) * 0 = 0 \<and> 0 + a ! (x div m * m + k) * 1 = a ! (x div m * m + k)
        \<and> a ! (x div m * m + k) + a ! (x div m * m + l) * 0 = a ! (x div m * m + k)"
      using laws by blast
  qed
  also have "\<dots> = a ! x" using col by (simp only: if_True div_mult_mod_eq)
  finally show "matrix_product m a (identity_matrix m) ! x = a ! x" .
qed

lemma exact_identity:
  fixes ps :: "'a::{zero,one,plus,times} world"
  assumes "ps \<noteq> []" and "int (length ps) \<le> n" and "n mod int (length ps) = 0" and "allocated n ps"
    and "load (mem (ps ! 0)) (B (ps ! 0)) (nat (n * n)) = identity_matrix (nat n)"
    and "\<forall>x\<in>set (load (mem (ps ! 0)) (A (ps ! 0)) (nat (n * n))).
         \<forall>y\<in>set (load (mem (ps ! 0)) (A (ps ! 0)) (nat (n * n))).
           0 + y * 0 = 0 \<and> 0 + x * 1 = x \<and> x + y * 0 = x"
  shows "load (mem (timed_exact n ps ! 0)) (C (timed_exact n ps ! 0)) (nat (n * n))
       = load (mem (ps ! 0)) (A (ps ! 0)) (nat (n * n))"
proof -
  have "length (load (mem (ps ! 0)) (A (ps ! 0)) (nat (n * n))) = nat n * nat n"
    using config_sizes(3)[OF assms(1,2)] by simp
  then have "matrix_product (nat n) (load (mem (ps ! 0)) (A (ps ! 0)) (nat (n * n))) (identity_matrix (nat n))
      = load (mem (ps ! 0)) (A (ps ! 0)) (nat (n * n))"
    using assms(6) by (rule matrix_product_identity)
  then show ?thesis
    unfolding timed_exact_product[OF assms(1-4)] assms(5) .
qed

section \<open>The program in the range of int\<close>

lemma foldl_bind_None: "foldl (\<lambda>s i. Option.bind s (f i)) None xs = None"
  by (induction xs) simp_all

lemma for_loop_Some:
  assumes "\<And>i s. i < nat bound \<Longrightarrow> body s (int i) = Some (g s i)"
  shows "for_loop bound body s = Some (foldl g s [0..<nat bound])"
proof -
  have "m \<le> nat bound \<Longrightarrow>
        foldl (\<lambda>s i. Option.bind s (\<lambda>t. body t (int i))) (Some s) [0..<m] = Some (foldl g s [0..<m])" for m
  proof (induction m)
    case 0
    show ?case by simp
  next
    case (Suc m)
    then show ?case using assms[of m] by simp
  qed
  then show ?thesis unfolding for_loop_def by blast
qed

lemma for_loop_None:
  assumes "i < nat bound" and "\<And>s. body s (int i) = None"
  shows "for_loop bound body s = None"
proof -
  have split: "[0..<nat bound] = [0..<i] @ i # [Suc i..<nat bound]"
    using assms(1) by (metis le0 upt_conv_Cons upt_add_eq_append le_add1 less_imp_add_positive add.commute less_or_eq_imp_le)
  have "Option.bind st (\<lambda>t. body t (int i)) = None" for st
    using assms(2) by (cases st) simp_all
  then show ?thesis
    unfolding for_loop_def split by (simp add: foldl_bind_None)
qed

lemma in_int_nat: "x \<le> 2147483647 \<Longrightarrow> in_int (int x)"
  by (simp add: in_int_def INT_MAX_def INT_MIN_def)

lemma offset_Some:
  assumes "i * m + j \<le> 2147483647"
  shows "offset (int i) (int m) (int j) = Some (i * m + j)"
proof -
  have "i * m \<le> 2147483647" using assms by simp
  then have 1: "in_int (int i * int m)" using in_int_nat[of "i * m"] by simp
  have 2: "in_int (int i * int m + int j)" using in_int_nat[OF assms] by simp
  have "nat (int i * int m + int j) = i * m + j"
    by (metis nat_int of_nat_add of_nat_mult)
  then show ?thesis using 1 2 by (simp add: offset_def int_mul_def int_add_def)
qed

lemma cell_le: "i < m \<Longrightarrow> k < n \<Longrightarrow> m * n \<le> (bd::nat) \<Longrightarrow> i * n + k \<le> bd"
  using cell_bound[of i m k n] by simp

lemma k_loop_in_range:
  assumes i: "i < lr" and j: "j < m" and b1: "lr * m \<le> 2147483647" and b2: "m * m \<le> 2147483647"
  shows "k_loop h a b c (int m) (int i) (int j) = Some (k_loop_exact h a b c m i j)"
proof -
  have ij: "offset (int i) (int m) (int j) = Some (i * m + j)"
    using i j b1 by (intro offset_Some cell_le)
  have "k_loop h a b c (int m) (int i) (int j)
      = Some (foldl (\<lambda>h k. h(c + (i * m + j) := h (c + (i * m + j)) + h (a + (i * m + k)) * h (b + (k * m + j))))
                h [0..<nat (int m)])"
    unfolding k_loop_def
  proof (rule for_loop_Some)
    fix k s assume "k < nat (int m)"
    then have k: "k < m" by simp
    have ik: "offset (int i) (int m) (int k) = Some (i * m + k)"
      using i k b1 by (intro offset_Some cell_le)
    have kj: "offset (int k) (int m) (int j) = Some (k * m + j)"
      using k j b2 by (intro offset_Some cell_le)
    show "Option.bind (offset (int i) (int m) (int j)) (\<lambda>c'.
            Option.bind (offset (int i) (int m) (int k)) (\<lambda>a'.
            Option.bind (offset (int k) (int m) (int j)) (\<lambda>b'.
              Some (s(c + c' := s (c + c') + s (a + a') * s (b + b'))))))
        = Some (s(c + (i * m + j) := s (c + (i * m + j)) + s (a + (i * m + k)) * s (b + (k * m + j))))"
      unfolding ij ik kj by (simp only: Option.bind.simps)
  qed
  then show ?thesis unfolding k_loop_exact_def by (simp only: nat_int)
qed

lemma j_loop_in_range:
  assumes i: "i < lr" and b1: "lr * m \<le> 2147483647" and b2: "m * m \<le> 2147483647"
  shows "j_loop h a b c (int m) (int i) = Some (j_loop_exact h a b c m i)"
proof -
  have "j_loop h a b c (int m) (int i)
      = Some (foldl (\<lambda>h j. k_loop_exact (h(c + (i * m + j) := 0)) a b c m i j) h [0..<nat (int m)])"
    unfolding j_loop_def
  proof (rule for_loop_Some)
    fix j s assume "j < nat (int m)"
    then have j: "j < m" by simp
    have ij: "offset (int i) (int m) (int j) = Some (i * m + j)"
      using i j b1 by (intro offset_Some cell_le)
    show "Option.bind (offset (int i) (int m) (int j)) (\<lambda>c'. k_loop (s(c + c' := 0)) a b c (int m) (int i) (int j))
        = Some (k_loop_exact (s(c + (i * m + j) := 0)) a b c m i j)"
      unfolding ij using k_loop_in_range[OF i j b1 b2] by (simp only: Option.bind.simps)
  qed
  then show ?thesis unfolding j_loop_exact_def by (simp only: nat_int)
qed

text \<open>
  When the products \<open>local_rows * n\<close> and \<open>n * n\<close> fit \<^verbatim>\<open>int\<close>, so does every index of the
  kernel, and the kernel computes what its loops compute on natural numbers.
\<close>

lemma multiply_matrices_in_range:
  assumes b1: "nat local_rows * nat n \<le> 2147483647" and b2: "nat n * nat n \<le> 2147483647"
  shows "multiply_matrices h a b c local_rows n = Some (multiply_exact h a b c local_rows n)"
proof (cases "0 < n")
  case True
  then have n: "n = int (nat n)" by simp
  have "multiply_matrices h a b c local_rows n
      = Some (foldl (\<lambda>h i. j_loop_exact h a b c (nat n) i) h [0..<nat local_rows])"
    unfolding multiply_matrices_def
  proof (rule for_loop_Some)
    fix i s assume i: "i < nat local_rows"
    show "j_loop s a b c n (int i) = Some (j_loop_exact s a b c (nat n) i)"
      using j_loop_in_range[OF i b1 b2, of s a b c] n by simp
  qed
  then show ?thesis unfolding multiply_exact_def .
next
  case False
  then have z: "nat n = 0" by simp
  have "multiply_matrices h a b c local_rows n
      = Some (foldl (\<lambda>h i. j_loop_exact h a b c (nat n) i) h [0..<nat local_rows])"
    unfolding multiply_matrices_def
  proof (rule for_loop_Some)
    fix i s
    show "j_loop s a b c n (int i) = Some (j_loop_exact s a b c (nat n) i)"
      by (simp add: j_loop_def j_loop_exact_def for_loop_def z)
  qed
  then show ?thesis unfolding multiply_exact_def .
qed

lemma those_map_Some: "those (map (\<lambda>x. Some (g x)) xs) = Some (map g xs)"
  by (induction xs) simp_all

lemma every_rank_Some:
  assumes "\<And>r. r < length ps \<Longrightarrow> f r (ps ! r) = Some (g r (ps ! r))"
  shows "every_rank f ps = Some (every_rank_exact g ps)"
proof -
  have "map (\<lambda>r. f r (ps ! r)) [0..<length ps] = map (\<lambda>r. Some (g r (ps ! r))) [0..<length ps]"
    using assms by (intro map_cong) simp_all
  then show ?thesis
    unfolding every_rank_def every_rank_exact_def by (simp only: those_map_Some)
qed

text \<open>The two products of a validated problem whose \<open>n * n\<close> fits \<^verbatim>\<open>int\<close>.\<close>

lemma sizes_in_range:
  assumes ne: "ps \<noteq> []" and le: "int (length ps) \<le> n" and bd: "n * n \<le> INT_MAX"
  shows "int_mul (n sdiv int (length ps)) n = Some (n sdiv int (length ps) * n)"
    and "int_mul n n = Some (n * n)"
    and "nat (n sdiv int (length ps)) * nat n \<le> 2147483647"
    and "nat n * nat n \<le> 2147483647"
proof -
  have n0: "0 \<le> n" using le by simp
  have lr: "n sdiv int (length ps) = int (nat n div length ps)"
    using ne le by (rule config_sizes(1))
  have "int (nat n div length ps) \<le> int (nat n)"
    by (simp only: of_nat_le_iff div_le_dividend)
  then have lrn: "n sdiv int (length ps) \<le> n"
    unfolding lr using n0 by simp
  have lr0: "0 \<le> n sdiv int (length ps)"
    unfolding lr by simp
  have p: "n sdiv int (length ps) * n \<le> n * n" "0 \<le> n sdiv int (length ps) * n"
    using lrn lr0 n0 by (simp_all add: mult_right_mono)
  show "int_mul (n sdiv int (length ps)) n = Some (n sdiv int (length ps) * n)"
    using p bd by (simp add: int_mul_def in_int_def INT_MAX_def INT_MIN_def)
  have nn: "- 2147483648 \<le> n * n" using zero_le_square[of n] by linarith
  show "int_mul n n = Some (n * n)"
    using bd nn by (simp add: int_mul_def in_int_def INT_MAX_def INT_MIN_def)
  have "int (nat (n sdiv int (length ps)) * nat n) = n sdiv int (length ps) * n"
    using lr0 n0 by simp
  then have "int (nat (n sdiv int (length ps)) * nat n) \<le> 2147483647"
    using p(1) bd by (simp add: INT_MAX_def)
  then show "nat (n sdiv int (length ps)) * nat n \<le> 2147483647" by linarith
  have "int (nat n * nat n) = n * n" using n0 by simp
  then have "int (nat n * nat n) \<le> 2147483647" using bd by (simp add: INT_MAX_def)
  then show "nat n * nat n \<le> 2147483647" by linarith
qed

lemma scatter_phase_in_range:
  assumes "ps \<noteq> []" and "int (length ps) \<le> n" and "n * n \<le> INT_MAX"
  shows "scatter_phase n ps = Some (scatter_exact n ps)"
  unfolding scatter_phase_def scatter_exact_def Let_def sizes_in_range(1)[OF assms] by simp

lemma gather_phase_in_range:
  assumes "ps \<noteq> []" and "int (length ps) \<le> n" and "n * n \<le> INT_MAX"
  shows "gather_phase n ps = Some (gather_exact n ps)"
  unfolding gather_phase_def gather_exact_def Let_def sizes_in_range(1)[OF assms] by simp

lemma broadcast_phase_in_range:
  assumes "ps \<noteq> []" and "int (length ps) \<le> n" and "n * n \<le> INT_MAX"
  shows "broadcast_phase n ps = Some (broadcast_exact n ps)"
proof -
  have c: "copy_B n p = Some (copy_exact n p)" for p :: "'a proc"
    unfolding copy_B_def copy_exact_def sizes_in_range(2)[OF assms] by simp
  have "every_rank (\<lambda>world_rank p. if world_rank = 0 then copy_B n p else Some p) ps
      = Some (every_rank_exact (\<lambda>world_rank p. if world_rank = 0 then copy_exact n p else p) ps)"
    by (rule every_rank_Some) (simp add: c)
  then show ?thesis
    unfolding broadcast_phase_def broadcast_exact_def sizes_in_range(2)[OF assms] by simp
qed

lemma multiply_phase_in_range:
  assumes "ps \<noteq> []" and "int (length ps) \<le> n" and "n * n \<le> INT_MAX"
  shows "multiply_phase n ps = Some (multiply_phase_exact n ps)"
  unfolding multiply_phase_def multiply_phase_exact_def Let_def
  by (rule every_rank_Some)
     (simp add: multiply_matrices_in_range[OF sizes_in_range(3,4)[OF assms]])

text \<open>
  For a validated problem whose \<open>n * n\<close> fits \<^verbatim>\<open>int\<close>, the timed section has a result, and
  it is the one computed with sizes taken as natural numbers.
\<close>

lemma timed_section_in_range:
  assumes ne: "ps \<noteq> []" and le: "int (length ps) \<le> n" and bd: "n * n \<le> INT_MAX"
  shows "timed_section n ps = Some (timed_exact n ps)"
proof -
  let ?p1 = "scatter_exact n ps"
  let ?p2 = "broadcast_exact n ?p1"
  let ?p3 = "multiply_phase_exact n ?p2"
  have 1: "scatter_phase n ps = Some ?p1" using ne le bd by (rule scatter_phase_in_range)
  have 2: "broadcast_phase n ?p1 = Some ?p2"
    by (rule broadcast_phase_in_range[OF nonempty_phase[OF _ ne] _ bd]) (use le in simp_all)
  have 3: "multiply_phase n ?p2 = Some ?p3"
    by (rule multiply_phase_in_range[OF nonempty_phase[OF _ ne] _ bd]) (use le in simp_all)
  have 4: "gather_phase n ?p3 = Some (gather_exact n ?p3)"
    by (rule gather_phase_in_range[OF nonempty_phase[OF _ ne] _ bd]) (use le in simp_all)
  show ?thesis
    unfolding timed_section_def timed_exact_def MPI_Barrier_def
    by (simp add: 1 2 3 4)
qed

section \<open>Properties of the kernel and of the timed section\<close>

lemma nat_bound: "int x \<le> INT_MAX \<Longrightarrow> x \<le> 2147483647"
  by (simp add: INT_MAX_def)

subsection \<open>The distributed product\<close>

text \<open>
  C1 does not hold for every valid problem: \<open>n = 46341\<close> with one participant passes both
  checks of \<^verbatim>\<open>main\<close> and its buffers are separate, but the count \<^verbatim>\<open>local_rows * n\<close> of the
  scatter is 2147488281, which is not a value of \<^verbatim>\<open>int\<close>; the timed section has no
  defined result.
\<close>

theorem distributed_product_overflow:
  "[coordinator_large] \<noteq> [] \<and> int (length [coordinator_large]) \<le> 46341
   \<and> 46341 mod int (length [coordinator_large]) = 0
   \<and> all_separate (buffers 46341 46341 0 coordinator_large)
   \<and> timed_section 46341 [coordinator_large] = None"
  by (simp add: timed_section_def scatter_phase_def MPI_Barrier_def int_mul_def in_int_def
      INT_MAX_def INT_MIN_def buffers_def separate_def coordinator_large_def)

text \<open>
  C1, for sizes that fit \<^verbatim>\<open>int\<close>.  Let \<open>n * n \<le> INT_MAX\<close>, and let a group of \<open>N \<ge> 1\<close>
  participants with \<open>N \<le> n\<close> and \<open>N\<close> dividing \<open>n\<close> hold allocated buffers.  Then the timed
  section has a result, in which the coordinator's \<open>C\<close> is the row-major product of its
  \<open>A\<close> and \<open>B\<close>, each entry summed from \<^verbatim>\<open>0.0\<close> in increasing \<open>k\<close>; and a second such group
  of any other valid size, given the same \<open>A\<close> and \<open>B\<close>, ends with the same result.
\<close>

theorem distributed_product:
  assumes "n * n \<le> INT_MAX"
    and "ps \<noteq> []" and "int (length ps) \<le> n" and "n mod int (length ps) = 0" and "allocated n ps"
    and "qs \<noteq> []" and "int (length qs) \<le> n" and "n mod int (length qs) = 0" and "allocated n qs"
    and "load (mem (qs ! 0)) (A (qs ! 0)) (nat (n * n)) = load (mem (ps ! 0)) (A (ps ! 0)) (nat (n * n))"
    and "load (mem (qs ! 0)) (B (qs ! 0)) (nat (n * n)) = load (mem (ps ! 0)) (B (ps ! 0)) (nat (n * n))"
  shows "map_option (result_C n) (timed_section n ps)
           = Some (matrix_product (nat n) (load (mem (ps ! 0)) (A (ps ! 0)) (nat (n * n)))
                     (load (mem (ps ! 0)) (B (ps ! 0)) (nat (n * n))))
       \<and> map_option (result_C n) (timed_section n qs) = map_option (result_C n) (timed_section n ps)"
  unfolding timed_section_in_range[OF assms(2,3,1)] timed_section_in_range[OF assms(6,7,1)]
  using timed_exact_product[OF assms(2-5)] timed_exact_product[OF assms(6-9)] assms(10,11)
  by (simp add: result_C_def)

text \<open>
  The example of the specification: \<open>((1, 2), (3, 4))\<close> times \<open>((5, 6), (7, 8))\<close> is
  \<open>((19, 22), (43, 50))\<close> on one participant and on two.
\<close>

theorem distributed_product_witness:
  "map_option (result_C 2) (timed_section 2 [coordinator_example]) = Some [19, 22, 43, 50]
   \<and> map_option (result_C 2) (timed_section 2 [coordinator_example, worker_example])
     = map_option (result_C 2) (timed_section 2 [coordinator_example])"
proof -
  have a1: "allocated 2 [coordinator_example]"
    by (simp add: allocated_def buffers_def separate_def coordinator_example_def
        in_int_def INT_MAX_def INT_MIN_def)
  have a2: "allocated 2 [coordinator_example, worker_example]"
    by (simp add: allocated_def buffers_def separate_def coordinator_example_def worker_example_def
        sdiv22 upt_rec in_int_def INT_MAX_def INT_MIN_def)
  have A: "load (mem coordinator_example) (A coordinator_example) 4 = [1, 2, 3, 4]"
    by (simp add: coordinator_example_def load_def store_def upt_rec)
  have B: "load (mem coordinator_example) (B coordinator_example) 4 = [5, 6, 7, 8]"
    by (simp add: coordinator_example_def load_def store_def upt_rec)
  have P: "matrix_product 2 [1, 2, 3, 4] [5, 6, 7, 8] = [19, 22, 43, 50 :: int]"
    by (simp add: matrix_product_def upt_rec)
  show ?thesis
    using distributed_product[of 2 "[coordinator_example]" "[coordinator_example, worker_example]"] a1 a2
    by (simp add: A B P INT_MAX_def)
qed

subsection \<open>Entries written by the kernel\<close>

text \<open>
  C2 does not hold for every \<open>local_rows \<ge> 0\<close> and \<open>n \<ge> 0\<close>: with \<open>local_rows = 1\<close> and
  \<open>n = 65536\<close>, on operands and an output that do not overlap, the index \<^verbatim>\<open>k * n + j\<close> at
  \<open>k = 32768\<close> is \<open>2\<^sup>3\<^sup>1\<close>, which is not a value of \<^verbatim>\<open>int\<close>; the kernel has no defined
  result.
\<close>

theorem multiply_matrices_entry_overflow:
  "separate 0 (nat 1 * nat 65536) 4295032832 (nat 1 * nat 65536)
   \<and> separate 65536 (nat 65536 * nat 65536) 4295032832 (nat 1 * nat 65536)
   \<and> multiply_matrices kernel_memory 0 65536 4295032832 1 65536 = None"
proof -
  have k: "k_loop h 0 65536 4295032832 65536 0 0 = None" for h :: "int mem"
    unfolding k_loop_def
    by (rule for_loop_None[where i=32768])
       (simp_all add: offset_def int_mul_def int_add_def in_int_def INT_MAX_def INT_MIN_def)
  have j: "j_loop h 0 65536 4295032832 65536 0 = None" for h :: "int mem"
    unfolding j_loop_def
    by (rule for_loop_None[where i=0])
       (simp_all add: k offset_def int_mul_def int_add_def in_int_def INT_MAX_def INT_MIN_def)
  have "multiply_matrices kernel_memory 0 65536 4295032832 1 65536 = None"
    unfolding multiply_matrices_def
    by (rule for_loop_None[where i=0]) (simp_all add: j)
  then show ?thesis by (simp add: separate_def)
qed

text \<open>
  C2, for sizes that fit \<^verbatim>\<open>int\<close>.  Let \<open>local_rows * n \<le> INT_MAX\<close> and \<open>n * n \<le> INT_MAX\<close>, and
  let the output slice at \<open>c\<close> overlap neither the row slice at \<open>a\<close> nor the matrix at \<open>b\<close>.
  Then the kernel returns, and for every \<open>i < local_rows\<close> and \<open>j < n\<close> the cell
  \<^verbatim>\<open>C_local[i * n + j]\<close> holds the sum of \<^verbatim>\<open>A_local[i * n + k] * B[k * n + j]\<close> accumulated
  from \<^verbatim>\<open>0.0\<close> for \<open>k = 0, \<dots>, n - 1\<close> in this order, in the arithmetic of the elements.
\<close>

theorem multiply_matrices_entry:
  assumes "int (nat local_rows * nat n) \<le> INT_MAX" and "int (nat n * nat n) \<le> INT_MAX"
    and "separate a (nat local_rows * nat n) c (nat local_rows * nat n)"
    and "separate b (nat n * nat n) c (nat local_rows * nat n)"
    and "i < nat local_rows" and "j < nat n"
  shows "\<exists>h'. multiply_matrices h a b c local_rows n = Some h'
          \<and> h' (c + (i * nat n + j))
              = foldl (\<lambda>acc k. acc + h (a + (i * nat n + k)) * h (b + (k * nat n + j))) 0 [0..<nat n]"
proof -
  have run: "multiply_matrices h a b c local_rows n = Some (multiply_exact h a b c local_rows n)"
    using assms(1,2) by (intro multiply_matrices_in_range nat_bound)
  have "i * nat n + j < nat local_rows * nat n"
    using assms(5,6) by (rule cell_bound)
  moreover have "(i * nat n + j) div nat n = i" "(i * nat n + j) mod nat n = j"
    using assms(6) by simp_all
  ultimately have "multiply_exact h a b c local_rows n (c + (i * nat n + j))
      = foldl (\<lambda>acc k. acc + h (a + (i * nat n + k)) * h (b + (k * nat n + j))) 0 [0..<nat n]"
    unfolding multiply_exact_eq[OF assms(3,4)] dot_def by simp
  then show ?thesis using run by simp
qed

text \<open>Entry \<open>(1, 0)\<close> of \<open>((1, 2), (3, 4))\<close> times \<open>((5, 6), (7, 8))\<close> is \<open>3 * 5 + 4 * 7 = 43\<close>.\<close>

theorem multiply_matrices_entry_witness:
  "\<exists>h'. multiply_matrices kernel_memory 0 4 8 2 2 = Some h' \<and> h' (8 + (1 * nat 2 + 0)) = 43"
  using multiply_matrices_entry [of 2 2 0 8 4 1 0 kernel_memory]
  by (simp add: separate_def INT_MAX_def kernel_memory_def store_def upt_rec)

subsection \<open>What the kernel leaves unchanged\<close>

text \<open>
  C7 does not hold for every input: with \<open>local_rows = n = 65537\<close> the index \<^verbatim>\<open>i * n + j\<close>
  at \<open>i = 32768\<close> exceeds \<open>INT_MAX\<close>, and the kernel, called on three buffers of \<open>n * n\<close>
  elements that do not overlap, has no defined result, hence no guarantee on any buffer.
\<close>

theorem multiply_matrices_frame_overflow:
  "in_int 65537
   \<and> separate 0 (nat 65537 * nat 65537) 17179869184 (nat 65537 * nat 65537)
   \<and> separate 8589934592 (nat 65537 * nat 65537) 17179869184 (nat 65537 * nat 65537)
   \<and> multiply_matrices kernel_memory 0 8589934592 17179869184 65537 65537 = None"
proof -
  have j: "j_loop h 0 8589934592 17179869184 65537 32768 = None" for h :: "int mem"
    unfolding j_loop_def
    by (rule for_loop_None[where i=0])
       (simp_all add: offset_def int_mul_def int_add_def in_int_def INT_MAX_def INT_MIN_def)
  have "multiply_matrices kernel_memory 0 8589934592 17179869184 65537 65537 = None"
    unfolding multiply_matrices_def
    by (rule for_loop_None[where i=32768]) (simp_all add: j)
  then show ?thesis by (simp add: separate_def in_int_def INT_MAX_def INT_MIN_def)
qed

text \<open>
  C7, for sizes that fit \<^verbatim>\<open>int\<close>.  Let \<open>local_rows\<close> and \<open>n\<close> be values of \<^verbatim>\<open>int\<close> with
  \<open>local_rows * n \<le> INT_MAX\<close> and \<open>n * n \<le> INT_MAX\<close>.  Then the kernel returns, whatever the
  pointers are, and every cell of memory outside the \<open>local_rows * n\<close> elements of
  \<open>C_local\<close> holds the value it held before the call; so \<open>A_local\<close> is unchanged when it does
  not overlap that output slice, and so is \<open>B\<close>.
\<close>

theorem multiply_matrices_frame_effect:
  assumes "in_int local_rows" and "in_int n"
    and "int (nat local_rows * nat n) \<le> INT_MAX" and "int (nat n * nat n) \<le> INT_MAX"
  shows "\<exists>h'. multiply_matrices h a b c local_rows n = Some h'
     \<and> (\<forall>x. x < c \<or> c + nat local_rows * nat n \<le> x \<longrightarrow> h' x = h x)
     \<and> (separate a (nat local_rows * nat n) c (nat local_rows * nat n) \<longrightarrow>
          load h' a (nat local_rows * nat n) = load h a (nat local_rows * nat n))
     \<and> (separate b (nat n * nat n) c (nat local_rows * nat n) \<longrightarrow>
          load h' b (nat n * nat n) = load h b (nat n * nat n))"
proof -
  have run: "multiply_matrices h a b c local_rows n = Some (multiply_exact h a b c local_rows n)"
    using assms(3,4) by (intro multiply_matrices_in_range nat_bound)
  show ?thesis
    unfolding run using exact_frame_effect[of c local_rows n h a b] by simp
qed

text \<open>
  A \<open>2 \<times> 2\<close> call with operands at 0 and 4 and output at 8: the cell after the output and
  both operands are as before.
\<close>

theorem multiply_matrices_frame_effect_witness:
  "\<exists>h'. multiply_matrices kernel_memory 0 4 8 2 2 = Some h'
     \<and> h' 12 = 0 \<and> load h' 0 4 = [1, 2, 3, 4] \<and> load h' 4 4 = [5, 6, 7, 8]"
  using multiply_matrices_frame_effect [of 2 2 kernel_memory 0 4 8]
  by (auto simp add: separate_def in_int_def INT_MAX_def INT_MIN_def kernel_memory_def load_def
      store_def upt_rec)

subsection \<open>Row blocks of the scatter\<close>

text \<open>
  C4 does not hold for every valid problem: for \<open>n = 46341\<close> and one participant the count
  \<^verbatim>\<open>local_rows * n\<close> passed to the scatter is not a value of \<^verbatim>\<open>int\<close>, and the scatter has no
  defined result.
\<close>

theorem row_partition_overflow:
  "[coordinator_large] \<noteq> [] \<and> int (length [coordinator_large]) \<le> 46341
   \<and> 46341 mod int (length [coordinator_large]) = 0
   \<and> scatter_phase 46341 [coordinator_large] = None"
  by (simp add: scatter_phase_def int_mul_def in_int_def INT_MAX_def INT_MIN_def)

text \<open>
  C4, for sizes that fit \<^verbatim>\<open>int\<close>.  Let \<open>n * n \<le> INT_MAX\<close>, \<open>1 \<le> N \<le> n\<close> and \<open>N\<close> divide \<open>n\<close>.
  Then the scatter has a result, in which row \<open>i\<close> of the slice of participant \<open>r\<close> is row
  \<open>r * local_rows + i\<close> of the coordinator's \<open>A\<close>, for \<open>local_rows = n / N\<close>; the blocks of
  rows of two different participants are disjoint, and the blocks of all participants
  together are the rows \<open>0, \<dots>, n - 1\<close>.
\<close>

theorem row_partition:
  assumes bd: "n * n \<le> INT_MAX"
    and ne: "ps \<noteq> []" and le: "int (length ps) \<le> n" and dv: "n mod int (length ps) = 0"
  shows "\<exists>ps'. scatter_phase n ps = Some ps'
       \<and> (\<forall>r<length ps. \<forall>i<nat (n sdiv int (length ps)).
            load (mem (ps' ! r)) (A_local (ps' ! r) + i * nat n) (nat n)
              = load (mem (ps ! 0)) (A (ps ! 0) + (r * nat (n sdiv int (length ps)) + i) * nat n) (nat n))
       \<and> (\<forall>r<length ps. \<forall>s<length ps. r \<noteq> s \<longrightarrow>
             {r * nat (n sdiv int (length ps))..<r * nat (n sdiv int (length ps)) + nat (n sdiv int (length ps))}
           \<inter> {s * nat (n sdiv int (length ps))..<s * nat (n sdiv int (length ps)) + nat (n sdiv int (length ps))} = {})
       \<and> (\<Union>r\<in>{0..<length ps}.
             {r * nat (n sdiv int (length ps))..<r * nat (n sdiv int (length ps)) + nat (n sdiv int (length ps))})
           = {0..<nat n}"
  unfolding scatter_phase_in_range[OF ne le bd]
  using exact_row_partition[OF ne le dv] by simp

text \<open>Two participants and \<open>A = ((1, 2), (3, 4))\<close>: rank 0 receives row 0 and rank 1 row 1.\<close>

theorem row_partition_witness:
  "\<exists>ps'. scatter_phase 2 [coordinator_example, worker_example] = Some ps'
     \<and> load (mem (ps' ! 1)) (A_local (ps' ! 1)) 2 = [3, 4]
     \<and> load (mem (ps' ! 0)) (A_local (ps' ! 0)) 2 = [1, 2]"
proof -
  let ?W = "[coordinator_example, worker_example]"
  have bd: "(2::int) * 2 \<le> INT_MAX" by (simp add: INT_MAX_def)
  have ne: "?W \<noteq> []" and le: "int (length ?W) \<le> 2" and dv: "2 mod int (length ?W) = 0"
    by simp_all
  from row_partition[OF bd ne le dv] obtain ps' where
    1: "scatter_phase 2 ?W = Some ps'" and
    2: "\<forall>r<length ?W. \<forall>i<nat (2 sdiv int (length ?W)).
          load (mem (ps' ! r)) (A_local (ps' ! r) + i * nat 2) (nat 2)
            = load (mem (?W ! 0)) (A (?W ! 0) + (r * nat (2 sdiv int (length ?W)) + i) * nat 2) (nat 2)"
    by blast
  have "load (mem (ps' ! 1)) (A_local (ps' ! 1)) 2 = load (mem coordinator_example) (A coordinator_example + 2) 2"
    using 2[rule_format, of 1 0] by (simp add: sdiv22)
  moreover have "load (mem (ps' ! 0)) (A_local (ps' ! 0)) 2 = load (mem coordinator_example) (A coordinator_example) 2"
    using 2[rule_format, of 0 0] by (simp add: sdiv22)
  moreover have "load (mem coordinator_example) (A coordinator_example + 2) 2 = [3, 4]"
    and "load (mem coordinator_example) (A coordinator_example) 2 = [1, 2]"
    by (simp_all add: coordinator_example_def load_def store_def upt_rec)
  ultimately show ?thesis using 1 by simp
qed

subsection \<open>Scatter followed by gather\<close>

text \<open>
  C5 does not hold for every valid problem: for \<open>n = 46341\<close> and one participant the count
  \<^verbatim>\<open>local_rows * n\<close> passed to the scatter and to the gather is not a value of \<^verbatim>\<open>int\<close>;
  neither the gather nor the scatter followed by the gather has a defined result.
\<close>

theorem scatter_gather_roundtrip_overflow:
  "[coordinator_large] \<noteq> [] \<and> int (length [coordinator_large]) \<le> 46341
   \<and> 46341 mod int (length [coordinator_large]) = 0
   \<and> gather_phase 46341 [coordinator_large] = None
   \<and> Option.bind (scatter_phase 46341 [coordinator_large]) (gather_phase 46341) = None"
  by (simp add: scatter_phase_def gather_phase_def int_mul_def in_int_def INT_MAX_def INT_MIN_def)

text \<open>
  C5, for sizes that fit \<^verbatim>\<open>int\<close>.  Let \<open>n * n \<le> INT_MAX\<close>, \<open>1 \<le> N \<le> n\<close> and \<open>N\<close> divide \<open>n\<close>.
  Then the scatter of line 159 has a result; and in every later state of the group in
  which the buffer \<open>C_local\<close> of each participant holds the slice of \<open>local_rows * n\<close>
  elements that the scatter delivered to it, unmodified, the gather of line 185 has a
  result, and the coordinator's receive buffer \<open>C\<close> then holds the \<open>n * n\<close> elements of the
  matrix \<open>A\<close> that was scattered.  Elements are moved, never recomputed.
\<close>

theorem scatter_gather_roundtrip:
  assumes bd: "n * n \<le> INT_MAX"
    and ne: "ps \<noteq> []" and le: "int (length ps) \<le> n" and dv: "n mod int (length ps) = 0"
  shows "\<exists>ps1. scatter_phase n ps = Some ps1 \<and>
     (\<forall>qs. length qs = length ps \<and>
           (\<forall>r<length ps.
               load (mem (qs ! r)) (C_local (qs ! r)) (nat (n sdiv int (length ps) * n))
                 = load (mem (ps1 ! r)) (A_local (ps1 ! r)) (nat (n sdiv int (length ps) * n)))
        \<longrightarrow> (\<exists>ps2. gather_phase n qs = Some ps2
              \<and> load (mem (ps2 ! 0)) (C (ps2 ! 0)) (nat (n * n))
                  = load (mem (ps ! 0)) (A (ps ! 0)) (nat (n * n))))"
proof (rule exI[of _ "scatter_exact n ps"], rule conjI, goal_cases)
  case 1
  show ?case using ne le bd by (rule scatter_phase_in_range)
next
  case 2
  show ?case
  proof (rule allI, rule impI)
    fix qs :: "'a world"
    let ?m = "nat n" and ?N = "length ps"
    let ?cnt = "?m div ?N * ?m"
    let ?ps1 = "scatter_exact n ps"
    assume h: "length qs = length ps \<and>
       (\<forall>r<length ps.
           load (mem (qs ! r)) (C_local (qs ! r)) (nat (n sdiv int (length ps) * n))
             = load (mem (?ps1 ! r)) (A_local (?ps1 ! r)) (nat (n sdiv int (length ps) * n)))"
    then have len: "length qs = ?N"
      and slices: "\<And>r. r < ?N \<Longrightarrow>
          load (mem (qs ! r)) (C_local (qs ! r)) ?cnt = load (mem (?ps1 ! r)) (A_local (?ps1 ! r)) ?cnt"
      unfolding config_sizes(2)[OF ne le] by simp_all
    have neq: "qs \<noteq> []" using len ne by auto
    have leq: "int (length qs) \<le> n" using len le by simp
    have N: "0 < ?N" using ne by simp
    have mN: "?N \<le> ?m" using le by simp
    have m0: "0 < ?m" using N mN by (rule less_le_trans)
    have lr0: "0 < ?m div ?N" using N mN by (simp add: div_greater_zero_iff)
    have cnt0: "0 < ?cnt" using lr0 m0 by simp
    have "int (?m mod ?N) = 0" using dv le by (simp add: zmod_int)
    then have dvn: "?m mod ?N = 0" by simp
    have cover: "?N * ?cnt = ?m * ?m" using ne dvn by (rule blocks_cover)
    have g: "gather_phase n qs = Some (gather_exact n qs)"
      using neq leq bd by (rule gather_phase_in_range)
    have "load (mem (gather_exact n qs ! 0)) (C (gather_exact n qs ! 0)) (nat (n * n))
        = load (mem (ps ! 0)) (A (ps ! 0)) (nat (n * n))"
      unfolding config_sizes(3)[OF ne le] C_gather_exact[OF neq]
    proof (rule load_cong)
      fix x assume "x < ?m * ?m"
      then have xb: "x < ?N * ?cnt" by (simp only: cover)
      have r: "x div ?cnt < ?N" using xb cnt0 by (simp add: less_mult_imp_div_less)
      have o: "x mod ?cnt < ?cnt" using cnt0 by simp
      have "mem (gather_exact n qs ! 0) (C (qs ! 0) + x)
          = mem (qs ! (x div ?cnt)) (C_local (qs ! (x div ?cnt)) + x mod ?cnt)"
        unfolding mem_gather_exact[OF neq leq] len using xb by simp
      also have "\<dots> = load (mem (qs ! (x div ?cnt))) (C_local (qs ! (x div ?cnt))) ?cnt ! (x mod ?cnt)"
        using o by simp
      also have "\<dots> = load (mem (?ps1 ! (x div ?cnt))) (A_local (?ps1 ! (x div ?cnt))) ?cnt ! (x mod ?cnt)"
        unfolding slices[OF r] ..
      also have "\<dots> = mem (?ps1 ! (x div ?cnt)) (A_local (?ps1 ! (x div ?cnt)) + x mod ?cnt)"
        using o by simp
      also have "\<dots> = mem (ps ! 0) (A (ps ! 0) + x div ?cnt * ?cnt + x mod ?cnt)"
        unfolding nth_scatter_exact[OF ne le r] using o by (simp add: store_load_at)
      also have "\<dots> = mem (ps ! 0) (A (ps ! 0) + x)"
        by (simp only: add.assoc div_mult_mod_eq)
      finally show "mem (gather_exact n qs ! 0) (C (qs ! 0) + x) = mem (ps ! 0) (A (ps ! 0) + x)" .
    qed
    then show "\<exists>ps2. gather_phase n qs = Some ps2
        \<and> load (mem (ps2 ! 0)) (C (ps2 ! 0)) (nat (n * n)) = load (mem (ps ! 0)) (A (ps ! 0)) (nat (n * n))"
      using g by simp
  qed
qed

text \<open>
  Two participants whose \<open>C_local\<close> is the buffer the scatter filled: scattering
  \<open>((1, 2), (3, 4))\<close> and gathering at once leaves \<open>((1, 2), (3, 4))\<close> in \<open>C\<close>.
\<close>

theorem scatter_gather_roundtrip_witness:
  "\<exists>ps1 ps2. scatter_phase 2 [coordinator_roundtrip, worker_roundtrip] = Some ps1
     \<and> gather_phase 2 ps1 = Some ps2
     \<and> load (mem (ps2 ! 0)) (C (ps2 ! 0)) 4 = [1, 2, 3, 4]"
proof -
  let ?W = "[coordinator_roundtrip, worker_roundtrip]"
  have bd: "(2::int) * 2 \<le> INT_MAX" by (simp add: INT_MAX_def)
  have ne: "?W \<noteq> []" and le: "int (length ?W) \<le> 2" and dv: "2 mod int (length ?W) = 0"
    by simp_all
  from scatter_gather_roundtrip[OF bd ne le dv] obtain ps1 where
    1: "scatter_phase 2 ?W = Some ps1" and
    2: "\<And>qs. length qs = length ?W \<and>
           (\<forall>r<length ?W.
               load (mem (qs ! r)) (C_local (qs ! r)) (nat (2 sdiv int (length ?W) * 2))
                 = load (mem (ps1 ! r)) (A_local (ps1 ! r)) (nat (2 sdiv int (length ?W) * 2)))
        \<Longrightarrow> (\<exists>ps2. gather_phase 2 qs = Some ps2
              \<and> load (mem (ps2 ! 0)) (C (ps2 ! 0)) (nat (2 * 2))
                  = load (mem (?W ! 0)) (A (?W ! 0)) (nat (2 * 2)))"
    by blast
  have ps1: "ps1 = scatter_exact 2 ?W"
    using 1 scatter_phase_in_range[OF ne le bd] by simp
  have ptr: "C_local (ps1 ! r) = A_local (ps1 ! r)" if "r < length ?W" for r
    unfolding ps1 nth_scatter_exact[OF ne le that]
    using that by (cases r) (simp_all add: coordinator_roundtrip_def worker_roundtrip_def)
  have "length ps1 = length ?W \<and>
           (\<forall>r<length ?W.
               load (mem (ps1 ! r)) (C_local (ps1 ! r)) (nat (2 sdiv int (length ?W) * 2))
                 = load (mem (ps1 ! r)) (A_local (ps1 ! r)) (nat (2 sdiv int (length ?W) * 2)))"
    using ptr unfolding ps1 by simp
  from 2[OF this] obtain ps2 where
    3: "gather_phase 2 ps1 = Some ps2" and
    4: "load (mem (ps2 ! 0)) (C (ps2 ! 0)) (nat (2 * 2)) = load (mem (?W ! 0)) (A (?W ! 0)) (nat (2 * 2))"
    by blast
  have "load (mem (?W ! 0)) (A (?W ! 0)) (nat (2 * 2)) = [1, 2, 3, 4]"
    by (simp add: coordinator_roundtrip_def load_def store_def upt_rec)
  then show ?thesis using 1 3 4 by simp
qed

subsection \<open>Copies of the right operand\<close>

text \<open>
  C6 does not hold for every valid problem: for \<open>n = 46341\<close> and one participant, whose
  buffers are separate, the bound \<^verbatim>\<open>n * n\<close> of the copy loop and of the broadcast is not a
  value of \<^verbatim>\<open>int\<close>, and the broadcast phase has no defined result.
\<close>

theorem broadcast_overflow:
  "[coordinator_large] \<noteq> [] \<and> int (length [coordinator_large]) \<le> 46341
   \<and> all_separate (buffers 46341 46341 0 coordinator_large)
   \<and> broadcast_phase 46341 [coordinator_large] = None"
  by (simp add: broadcast_phase_def every_rank_def copy_B_def int_mul_def in_int_def
      INT_MAX_def INT_MIN_def buffers_def separate_def coordinator_large_def)

text \<open>
  C6, for sizes that fit \<^verbatim>\<open>int\<close>.  Let \<open>n * n \<le> INT_MAX\<close> and let a group of \<open>N \<ge> 1\<close>
  participants with \<open>N \<le> n\<close> hold allocated buffers.  Then the broadcast phase (the copy
  loop on rank 0, then the broadcast) has a result, in which the buffer \<open>B_local\<close> of
  every participant, rank 0 included, holds the \<open>n * n\<close> elements of the coordinator's \<open>B\<close>.
\<close>

theorem broadcast_replicates_B:
  assumes bd: "n * n \<le> INT_MAX"
    and ne: "ps \<noteq> []" and le: "int (length ps) \<le> n" and al: "allocated n ps"
  shows "\<exists>ps'. broadcast_phase n ps = Some ps'
       \<and> (\<forall>r<length ps.
             load (mem (ps' ! r)) (B_local (ps' ! r)) (nat (n * n))
               = load (mem (ps ! 0)) (B (ps ! 0)) (nat (n * n)))"
  unfolding broadcast_phase_in_range[OF ne le bd]
  using exact_broadcast[OF ne le al] by simp

text \<open>Two participants and \<open>B = ((5, 6), (7, 8))\<close>: both hold it after the phase.\<close>

theorem broadcast_replicates_B_witness:
  "\<exists>ps'. broadcast_phase 2 [coordinator_example, worker_example] = Some ps'
     \<and> load (mem (ps' ! 1)) (B_local (ps' ! 1)) (nat (2 * 2)) = [5, 6, 7, 8]
     \<and> load (mem (ps' ! 0)) (B_local (ps' ! 0)) (nat (2 * 2)) = [5, 6, 7, 8]"
proof -
  have a2: "allocated 2 [coordinator_example, worker_example]"
    by (simp add: allocated_def buffers_def separate_def coordinator_example_def worker_example_def
        sdiv22 upt_rec in_int_def INT_MAX_def INT_MIN_def)
  have B: "load (mem coordinator_example) (B coordinator_example) 4 = [5, 6, 7, 8]"
    by (simp add: coordinator_example_def load_def store_def upt_rec)
  show ?thesis
    using broadcast_replicates_B[of 2 "[coordinator_example, worker_example]"] a2
    by (auto simp add: B INT_MAX_def)
qed

subsection \<open>The identity matrix as right operand\<close>

text \<open>
  C9 does not hold for every matrix \<open>A\<close>, nor for every valid problem.  With \<open>n = 2\<close>, one
  participant, allocated buffers, \<open>A = ((\<infinity>, 2), (3, 4))\<close> and \<open>B\<close> the identity matrix, the
  result is \<open>((\<infinity>, NaN), (3, 4))\<close>: entry \<open>(0, 1)\<close> adds \<open>\<infinity> * 0\<close>, which is NaN.  And for
  \<open>n = 46341\<close> with \<open>B\<close> the identity matrix the timed section has no defined result, as
  \<open>n * n\<close> is not a value of \<^verbatim>\<open>int\<close>.
\<close>

theorem identity_right_operand_fails:
  "allocated 2 [coordinator_infinity]
   \<and> load (mem coordinator_infinity) (A coordinator_infinity) (nat (2 * 2)) = [PInf, Fin 2, Fin 3, Fin 4]
   \<and> load (mem coordinator_infinity) (B coordinator_infinity) (nat (2 * 2)) = identity_matrix (nat 2)
   \<and> map_option (result_C 2) (timed_section 2 [coordinator_infinity]) = Some [PInf, NaN, Fin 3, Fin 4]
   \<and> load (mem coordinator_large) (B coordinator_large) (nat (46341 * 46341)) = identity_matrix (nat 46341)
   \<and> timed_section 46341 [coordinator_large] = None"
proof -
  let ?W = "[coordinator_infinity]"
  have bd: "(2::int) * 2 \<le> INT_MAX" by (simp add: INT_MAX_def)
  have ne: "?W \<noteq> []" and le: "int (length ?W) \<le> 2" and dv: "2 mod int (length ?W) = 0"
    by simp_all
  have al: "allocated 2 ?W"
    by (simp add: allocated_def buffers_def separate_def coordinator_infinity_def
        in_int_def INT_MAX_def INT_MIN_def)
  have A: "load (mem coordinator_infinity) (A coordinator_infinity) 4 = [PInf, Fin 2, Fin 3, Fin 4]"
    by (simp add: coordinator_infinity_def load_def store_def upt_rec)
  have B: "load (mem coordinator_infinity) (B coordinator_infinity) 4 = [Fin 1, Fin 0, Fin 0, Fin 1]"
    by (simp add: coordinator_infinity_def load_def store_def upt_rec)
  have I: "identity_matrix 2 = [Fin 1, Fin 0, Fin 0, Fin 1]"
    by (simp add: identity_matrix_def upt_rec zero_xdouble_def one_xdouble_def)
  have P: "matrix_product 2 [PInf, Fin 2, Fin 3, Fin 4] [Fin 1, Fin 0, Fin 0, Fin 1] = [PInf, NaN, Fin 3, Fin 4]"
    by (simp add: matrix_product_def upt_rec zero_xdouble_def)
  have R: "map_option (result_C 2) (timed_section 2 ?W) = Some [PInf, NaN, Fin 3, Fin 4]"
    unfolding timed_section_in_range[OF ne le bd]
    using timed_exact_product[OF ne le dv al] by (simp add: result_C_def A B P)
  have L: "load (mem coordinator_large) (B coordinator_large) (nat (46341 * 46341)) = identity_matrix (nat 46341)"
    unfolding load_def identity_matrix_def
    by (rule map_cong) (simp_all add: coordinator_large_def identity_memory_def)
  have O: "timed_section 46341 [coordinator_large] = None"
    by (simp add: timed_section_def scatter_phase_def MPI_Barrier_def int_mul_def in_int_def
        INT_MAX_def INT_MIN_def)
  show ?thesis using al A B I R L O by simp
qed

text \<open>
  C9, for sizes that fit \<^verbatim>\<open>int\<close> and entries on which the accumulation is exact.  Let
  \<open>n * n \<le> INT_MAX\<close>, let a group of \<open>N \<ge> 1\<close> participants with \<open>N \<le> n\<close> and \<open>N\<close> dividing \<open>n\<close>
  hold allocated buffers, let the coordinator's \<open>B\<close> be the identity matrix, and let all
  entries \<open>x\<close>, \<open>y\<close> of its \<open>A\<close> satisfy \<open>0 + y * 0 = 0\<close>, \<open>0 + x * 1 = x\<close> and \<open>x + y * 0 = x\<close>
  in the arithmetic of the elements (in double precision: every finite entry).  Then the
  timed section has a result, in which the coordinator's \<open>C\<close> equals its \<open>A\<close>.
\<close>

theorem identity_right_operand:
  fixes ps :: "'a::{zero,one,plus,times} world"
  assumes "n * n \<le> INT_MAX"
    and "ps \<noteq> []" and "int (length ps) \<le> n" and "n mod int (length ps) = 0" and "allocated n ps"
    and "load (mem (ps ! 0)) (B (ps ! 0)) (nat (n * n)) = identity_matrix (nat n)"
    and "\<forall>x\<in>set (load (mem (ps ! 0)) (A (ps ! 0)) (nat (n * n))).
         \<forall>y\<in>set (load (mem (ps ! 0)) (A (ps ! 0)) (nat (n * n))).
           0 + y * 0 = 0 \<and> 0 + x * 1 = x \<and> x + y * 0 = x"
  shows "map_option (result_C n) (timed_section n ps)
       = Some (load (mem (ps ! 0)) (A (ps ! 0)) (nat (n * n)))"
  unfolding timed_section_in_range[OF assms(2,3,1)]
  using exact_identity[OF assms(2-7)] by (simp add: result_C_def)

text \<open>Two participants, \<open>A = ((1, 2), (3, 4))\<close> and the identity matrix: the result is \<open>A\<close>.\<close>

theorem identity_right_operand_witness:
  "map_option (result_C 2) (timed_section 2 [coordinator_identity, worker_example]) = Some [1, 2, 3, 4]"
proof -
  have a2: "allocated 2 [coordinator_identity, worker_example]"
    by (simp add: allocated_def buffers_def separate_def coordinator_identity_def worker_example_def
        sdiv22 upt_rec in_int_def INT_MAX_def INT_MIN_def)
  have A: "load (mem coordinator_identity) (A coordinator_identity) 4 = [1, 2, 3, 4]"
    by (simp add: coordinator_identity_def load_def store_def upt_rec)
  have B: "load (mem coordinator_identity) (B coordinator_identity) 4 = identity_matrix 2"
    by (simp add: coordinator_identity_def load_def store_def upt_rec identity_matrix_def)
  show ?thesis
    using identity_right_operand[of 2 "[coordinator_identity, worker_example]"] a2
    by (simp add: A B INT_MAX_def)
qed

section \<open>Validation and buffer lifetime\<close>

lemma smod_nonneg: "0 \<le> a \<Longrightarrow> 0 < b \<Longrightarrow> a smod b = a mod (b::int)"
  by (simp add: signed_modulo_int_def sgn_if)

text \<open>
  C3.  When \<open>n < N\<close> or \<open>N\<close> does not divide \<open>n\<close>, every participant, whatever its rank,
  returns status 1 from \<^verbatim>\<open>main\<close>, having called neither \<^verbatim>\<open>malloc\<close> nor any collective
  operation; the diagnostic is printed by rank 0 and by no other rank.
\<close>

theorem invalid_configuration_rejected:
  assumes "1 \<le> world_size"
    and "problem_size atoi argv < world_size \<or> problem_size atoi argv mod world_size \<noteq> 0"
  shows "snd (main atoi argv world_size world_rank malloc_ok) = Return 1
       \<and> (\<forall>e\<in>set (fst (main atoi argv world_size world_rank malloc_ok)). \<not> is_malloc e \<and> \<not> is_collective e)
       \<and> ((\<exists>e\<in>set (fst (main atoi argv world_size world_rank malloc_ok)). is_diagnostic e) \<longleftrightarrow> world_rank = 0)"
proof (cases "problem_size atoi argv < world_size")
  case True
  then show ?thesis by (simp add: main_def Let_def rank0_def)
next
  case False
  then have "problem_size atoi argv smod world_size = problem_size atoi argv mod world_size"
    using assms(1) by (intro smod_nonneg) auto
  then have "problem_size atoi argv smod world_size \<noteq> 0" using assms(2) False by simp
  then show ?thesis using False by (simp add: main_def Let_def rank0_def)
qed

theorem invalid_configuration_rejected_witness:
  "snd (main parse_five [''matrix-mult'', ''5''] 3 0 all_succeed) = Return 1
   \<and> list_all (\<lambda>e. \<not> is_malloc e \<and> \<not> is_collective e)
        (fst (main parse_five [''matrix-mult'', ''5''] 3 0 all_succeed))
   \<and> list_ex is_diagnostic (fst (main parse_five [''matrix-mult'', ''5''] 3 0 all_succeed))"
proof -
  have "problem_size parse_five [''matrix-mult'', ''5''] = 5"
    by (simp add: problem_size_def parse_five_def)
  then have h2: "problem_size parse_five [''matrix-mult'', ''5''] < 3
      \<or> problem_size parse_five [''matrix-mult'', ''5''] mod 3 \<noteq> 0"
    by simp
  have h1: "(1::int) \<le> 3" by simp
  show ?thesis
    using invalid_configuration_rejected[OF h1 h2, of 0 all_succeed]
    by (simp add: list_all_iff list_ex_iff)
qed

text \<open>
  C10.  When an argument is given and its parse is zero or negative, then for every
  participant count \<open>N \<ge> 1\<close> the run takes the branch of the size check \<open>n < N\<close>: it
  consists of initialisation, the size diagnostic on rank 0, and finalisation, returns
  status 1, and allocates no buffer and calls no collective operation.
\<close>

theorem nonpositive_size_rejected:
  assumes "1 \<le> world_size" and "1 < length argv" and "atoi (argv ! 1) \<le> 0"
  shows "main atoi argv world_size world_rank malloc_ok
           = ([MPI_Init] @ rank0 world_rank [Print (Size_error (atoi (argv ! 1)) world_size)] @ [MPI_Finalize], Return 1)
       \<and> (\<forall>e\<in>set (fst (main atoi argv world_size world_rank malloc_ok)). \<not> is_malloc e \<and> \<not> is_collective e)"
  using assms by (simp add: main_def Let_def rank0_def problem_size_def)

theorem nonpositive_size_rejected_witness:
  "main parse_zero [''matrix-mult'', ''abc''] 1 0 all_succeed
     = ([MPI_Init, Print (Size_error 0 1), MPI_Finalize], Return 1)"
  using nonpositive_size_rejected[of 1 "[''matrix-mult'', ''abc'']" parse_zero 0 all_succeed]
  by (simp add: parse_zero_def rank0_def)

text \<open>
  C8.  Not every exit path releases the buffers it allocated: when the allocation of
  \<open>B_local\<close> fails, the run is aborted while \<open>A_local\<close> and \<open>C_local\<close> are still allocated
  (lines 123 to 126 call \<^verbatim>\<open>MPI_Abort\<close> without freeing).
\<close>

theorem abort_leaves_buffers_allocated:
  "snd (main parse_two [''matrix-mult'', ''2''] 1 0 B_local_fails) = Abort 1
   \<and> live_after (fst (main parse_two [''matrix-mult'', ''2''] 1 0 B_local_fails)) = {A_local_buffer, C_local_buffer}"
  by (auto simp: main_def Let_def rank0_def problem_size_def parse_two_def B_local_fails_def live_after_def
      signed_modulo_int_def in_int_def INT_MAX_def INT_MIN_def)

text \<open>
  C8, as the code has it: on every path on which \<^verbatim>\<open>main\<close> returns, no buffer is still
  allocated at the return; on the abort paths nothing is freed.
\<close>

theorem buffers_released_on_return:
  "(snd (main atoi argv world_size world_rank malloc_ok) = Return status \<longrightarrow>
      live_after (fst (main atoi argv world_size world_rank malloc_ok)) = {})
   \<and> (snd (main atoi argv world_size world_rank malloc_ok) = Abort status \<longrightarrow>
      list_all (\<lambda>e. \<not> is_free e) (fst (main atoi argv world_size world_rank malloc_ok)))"
  by (auto simp: main_def Let_def rank0_def live_after_def split: if_splits)

theorem buffers_released_on_return_witness:
  "snd (main parse_two [''matrix-mult'', ''2''] 1 0 all_succeed) = Return 0
   \<and> live_after (fst (main parse_two [''matrix-mult'', ''2''] 1 0 all_succeed)) = {}
   \<and> snd (main parse_two [''matrix-mult'', ''2''] 1 0 B_local_fails) = Abort 1
   \<and> list_all (\<lambda>e. \<not> is_free e) (fst (main parse_two [''matrix-mult'', ''2''] 1 0 B_local_fails))"
proof -
  have r: "snd (main parse_two [''matrix-mult'', ''2''] 1 0 all_succeed) = Return 0"
    by (simp add: main_def Let_def rank0_def problem_size_def parse_two_def all_succeed_def
      signed_modulo_int_def in_int_def INT_MAX_def INT_MIN_def)
  have a: "snd (main parse_two [''matrix-mult'', ''2''] 1 0 B_local_fails) = Abort 1"
    by (simp add: main_def Let_def rank0_def problem_size_def parse_two_def B_local_fails_def
      signed_modulo_int_def in_int_def INT_MAX_def INT_MIN_def)
  show ?thesis
    using r a
      buffers_released_on_return[of parse_two "[''matrix-mult'', ''2'']" 1 0 all_succeed 0]
      buffers_released_on_return[of parse_two "[''matrix-mult'', ''2'']" 1 0 B_local_fails 1]
    by simp
qed

end
